theory Spec2Isabelle
  imports Main "HOL-Library.AList"
begin

section \<open>JSON values and the ECMAScript coercions the client applies to them\<close>

text \<open>
  \<^verbatim>\<open>handleMessage\<close> works on whatever \<^verbatim>\<open>JSON.parse\<close> returns. A number is
  represented by its ECMAScript \<^verbatim>\<open>ToString\<close> rendering: the client only tests numbers
  for truthiness and interpolates them into event names, and the rendering determines
  both (zero of either sign renders as \<open>''0''\<close>; JSON has no NaN). An object is the
  list of its own properties; a property that is absent reads as \<^verbatim>\<open>undefined\<close>,
  which is \<open>None\<close> below.
\<close>

datatype json =
    JNull
  | JBool bool
  | JNum string
  | JStr string
  | JArr "json list"
  | JObj "(string \<times> json) list"

fun join_comma :: "string list \<Rightarrow> string" where
  "join_comma [] = []"
| "join_comma [x] = x"
| "join_comma (x # y # ys) = x @ '','' @ join_comma (y # ys)"

text \<open>
  ECMAScript \<^verbatim>\<open>ToString\<close>, as a template literal and the \<^verbatim>\<open>Error\<close> constructor apply
  it; \<open>None\<close> is the \<^verbatim>\<open>TypeError\<close> the conversion raises. An object is converted by its
  \<^verbatim>\<open>toString\<close> method: \<^verbatim>\<open>Object.prototype.toString\<close>, which gives \<^verbatim>\<open>[object Object]\<close>,
  unless the object has a property of that name of its own. A property that came out of
  \<^verbatim>\<open>JSON.parse\<close> is never a function, so the conversion then turns to \<^verbatim>\<open>valueOf\<close>, which
  gives no primitive either, and raises. An array is converted by \<^verbatim>\<open>join\<close>, which
  converts every element but \<^verbatim>\<open>null\<close>, for which it puts the empty string.
\<close>

fun js_string :: "json \<Rightarrow> string option"
  and js_elements :: "json list \<Rightarrow> string list option" where
  "js_string JNull = Some ''null''"
| "js_string (JBool b) = Some (if b then ''true'' else ''false'')"
| "js_string (JNum r) = Some r"
| "js_string (JStr s) = Some s"
| "js_string (JArr xs) = map_option join_comma (js_elements xs)"
| "js_string (JObj ps) =
     (if map_of ps ''toString'' = None then Some ''[object Object]'' else None)"
| "js_elements [] = Some []"
| "js_elements (x # xs) =
     (case (case x of JNull \<Rightarrow> Some [] | _ \<Rightarrow> js_string x) of
        None \<Rightarrow> None
      | Some s \<Rightarrow> map_option ((#) s) (js_elements xs))"

definition to_string :: "json option \<Rightarrow> string option" where
  "to_string v = (case v of None \<Rightarrow> Some ''undefined'' | Some j \<Rightarrow> js_string j)"

text \<open>ECMAScript \<^verbatim>\<open>ToBoolean\<close>.\<close>

fun truthy :: "json option \<Rightarrow> bool" where
  "truthy None = False"
| "truthy (Some JNull) = False"
| "truthy (Some (JBool b)) = b"
| "truthy (Some (JNum r)) = (r \<noteq> ''0'')"
| "truthy (Some (JStr s)) = (s \<noteq> [])"
| "truthy (Some (JArr xs)) = True"
| "truthy (Some (JObj ps)) = True"

text \<open>
  Property access \<^verbatim>\<open>message.name\<close> on a value other than \<^verbatim>\<open>null\<close>, for the names the
  client reads (\<^verbatim>\<open>type\<close>, \<^verbatim>\<open>channel\<close>, \<^verbatim>\<open>data\<close>, \<^verbatim>\<open>request_id\<close>, \<^verbatim>\<open>success\<close>, \<^verbatim>\<open>error\<close>):
  only an object can carry them.
\<close>

fun get_prop :: "json \<Rightarrow> string \<Rightarrow> json option" where
  "get_prop (JObj ps) name = map_of ps name"
| "get_prop _ name = None"

section \<open>Decimal rendering of the request counter and the clock\<close>

definition digit_char :: "nat \<Rightarrow> char" where
  "digit_char d = ''0123456789'' ! d"

function show_nat :: "nat \<Rightarrow> string" where
  "show_nat n = (if n < 10 then [digit_char n] else show_nat (n div 10) @ [digit_char (n mod 10)])"
  by pat_completeness auto
termination
  by (relation "measure id") auto

declare show_nat.simps [simp del]

section \<open>Errors\<close>

datatype error =
    SyntaxError string
  | TypeError string
  | TransportError string
  | DaebusError string
  | DaebusTimeoutError string
  | DaebusConnectionError string

text \<open>\<^verbatim>\<open>error.message\<close>, and \<^verbatim>\<open>Error.prototype.toString\<close> as \<^verbatim>\<open>`${error}`\<close> applies it.\<close>

fun message :: "error \<Rightarrow> string" where
  "message (SyntaxError m) = m"
| "message (TypeError m) = m"
| "message (TransportError m) = m"
| "message (DaebusError m) = m"
| "message (DaebusTimeoutError m) = m"
| "message (DaebusConnectionError m) = m"

fun error_name :: "error \<Rightarrow> string" where
  "error_name (SyntaxError m) = ''SyntaxError''"
| "error_name (TypeError m) = ''TypeError''"
| "error_name (TransportError m) = ''Error''"
| "error_name (DaebusError m) = ''DaebusError''"
| "error_name (DaebusTimeoutError m) = ''DaebusTimeoutError''"
| "error_name (DaebusConnectionError m) = ''DaebusConnectionError''"

definition error_string :: "error \<Rightarrow> string" where
  "error_string e = (if message e = [] then error_name e else error_name e @ '': '' @ message e)"

text \<open>The exception of a \<^verbatim>\<open>ToString\<close> that finds no primitive value.\<close>

definition conversion_error :: error where
  "conversion_error = TypeError ''Cannot convert object to primitive value''"

section \<open>The transport handle, timers and the event emitter\<close>

text \<open>
  The transport handle is an object of the \<^verbatim>\<open>ws\<close> package. Handles live in a store
  indexed by creation order, since the handlers that \<^verbatim>\<open>connect\<close> attaches to a handle
  keep acting on the client after \<^verbatim>\<open>this.ws\<close> has moved on. Each handle carries the
  promise that the \<^verbatim>\<open>connect\<close> call which created it returned, and who holds that
  promise: the application, or the reconnect timer with its \<^verbatim>\<open>catch\<close> continuation.
  A continuation does not run when the promise is rejected but later, as a microtask; the
  client keeps the rejections whose continuation has yet to run.
\<close>

datatype ready_state = CONNECTING | OPEN | CLOSING | CLOSED

datatype promise_state = Unsettled | Fulfilled | Rejected error

datatype caller = Application | ReconnectTimer

record socket =
  readyState :: ready_state
  connectPromise :: promise_state
  awaitedBy :: caller

record daebus_message =
  action :: string
  payload :: json
  reply_channel :: string
  request_id :: string
  timestamp :: nat

datatype frame =
    SubscribeFrame string
  | UnsubscribeFrame string
  | PublishFrame string daebus_message
  | BroadcastFrame string json

datatype timer_callback = RequestTimeout string string | Reconnect

record timer =
  callback :: timer_callback
  delay :: nat

text \<open>
  A \<^verbatim>\<open>PendingRequest\<close> holds the timer handle; its \<^verbatim>\<open>resolve\<close> and \<^verbatim>\<open>reject\<close> closures
  are \<open>resolve_pending\<close> and \<open>reject_pending\<close> below, applied to the request's id.
\<close>

record pending_request =
  timeout :: nat

datatype argument =
    NoArgument
  | CloseArguments nat string
  | ErrorArgument error
  | MessageArgument json
  | DataArgument "json option"

text \<open>
  What the client does to the outside world, in order: frames handed to a transport
  handle, \<^verbatim>\<open>close\<close> calls on a handle, listener invocations, and the calls of the
  \<^verbatim>\<open>resolve\<close> and \<^verbatim>\<open>reject\<close> functions of the promise \<^verbatim>\<open>sendAction\<close> returned for a
  request id. An exception raised inside the reconnect timer's \<^verbatim>\<open>catch\<close> continuation
  reaches nobody and is recorded as an unhandled rejection.
\<close>

datatype effect =
    Sent nat frame
  | CloseCall nat nat string
  | Called nat string argument
  | Resolved string "json option"
  | RejectedWith string error
  | UnhandledRejection error

text \<open>
  \<open>url_error\<close> is the verdict of the \<^verbatim>\<open>WebSocket\<close> constructor on \<^verbatim>\<open>options.url\<close>:
  \<open>Some m\<close> when it raises a \<^verbatim>\<open>SyntaxError\<close> with message \<open>m\<close>.
\<close>

record options =
  url_error :: "string option"
  reconnectInterval :: "nat option"
  maxReconnectAttempts :: "nat option"
  timeout :: "nat option"

record client =
  ws :: "nat option"
  reconnectAttempts :: nat
  isConnecting :: bool
  isReconnecting :: bool
  pendingRequests :: "(string \<times> pending_request) list"
  requestCounter :: nat
  subscribedChannels :: "string list"
  options :: options
  listeners :: "string \<Rightarrow> nat list"
  sockets :: "nat \<Rightarrow> socket option"
  nextSocket :: nat
  timers :: "nat \<Rightarrow> timer option"
  nextTimer :: nat
  microtasks :: "error list"
  raises :: "nat \<Rightarrow> bool"
  log :: "effect list"

definition init :: "options \<Rightarrow> client" where
  "init opts =
     \<lparr>ws = None, reconnectAttempts = 0, isConnecting = False, isReconnecting = False,
      pendingRequests = [], requestCounter = 0, subscribedChannels = [], options = opts,
      listeners = (\<lambda>ev. []), sockets = Map.empty, nextSocket = 0, timers = Map.empty,
      nextTimer = 0, microtasks = [], raises = (\<lambda>h. False), log = []\<rparr>"

text \<open>
  \<^verbatim>\<open>EventEmitter\<close>: listeners are functions, identified by numbers here, and an emission
  calls them in registration order. A listener is taken not to call back into the client
  before it returns, and a function of the application is taken to return normally. The
  repository registers listeners of its own: its facade \<^verbatim>\<open>DaebusClient\<close> proxies the
  client's events onto its own emitter. The proxies for \<^verbatim>\<open>'connect'\<close>,
  \<^verbatim>\<open>'disconnect'\<close> and \<^verbatim>\<open>'message'\<close> emit events that an emitter never raises by itself,
  but the proxy for errors, \<^verbatim>\<open>this.wsClient.on('error', (error) => this.emit('error', error))\<close>,
  raises the error it is called with whenever the facade has no \<^verbatim>\<open>'error'\<close> listener
  itself. So \<open>raises c h\<close> says that listener \<open>h\<close>, called with an error, raises it;
  whether it does is the state of the emitter behind the proxy, which changes as the
  application registers listeners there. An exception of a listener leaves the emission
  at once, before the listeners after it are called, and an \<^verbatim>\<open>'error'\<close> emission that
  finds no listener at all is raised by the emitter as an exception.
\<close>

definition on :: "string \<Rightarrow> nat \<Rightarrow> client \<Rightarrow> client" where
  "on ev h c = c\<lparr>listeners := (listeners c)(ev := listeners c ev @ [h])\<rparr>"

definition removeAllListeners :: "string \<Rightarrow> client \<Rightarrow> client" where
  "removeAllListeners ev c = c\<lparr>listeners := (listeners c)(ev := [])\<rparr>"

definition emit :: "string \<Rightarrow> argument \<Rightarrow> client \<Rightarrow> client" where
  "emit ev a c = c\<lparr>log := log c @ map (\<lambda>h. Called h ev a) (listeners c ev)\<rparr>"

text \<open>The listeners an emission reaches: all up to the first one that raises.\<close>

fun reached :: "(nat \<Rightarrow> bool) \<Rightarrow> nat list \<Rightarrow> nat list" where
  "reached r [] = []"
| "reached r (h # hs) = h # (if r h then [] else reached r hs)"

definition emit_error :: "error \<Rightarrow> client \<Rightarrow> error option \<times> client" where
  "emit_error e c =
     (if listeners c ''error'' = [] then (Some e, c)
      else
        (if list_ex (raises c) (listeners c ''error'') then Some e else None,
         c\<lparr>log := log c @
              map (\<lambda>h. Called h ''error'' (ErrorArgument e))
                (reached (raises c) (listeners c ''error''))\<rparr>))"

definition setTimeout :: "timer_callback \<Rightarrow> nat \<Rightarrow> client \<Rightarrow> nat \<times> client" where
  "setTimeout cb d c =
     (nextTimer c,
      c\<lparr>timers := (timers c)(nextTimer c \<mapsto> \<lparr>callback = cb, delay = d\<rparr>),
        nextTimer := Suc (nextTimer c)\<rparr>)"

definition clearTimeout :: "nat \<Rightarrow> client \<Rightarrow> client" where
  "clearTimeout h c = c\<lparr>timers := (timers c)(h := None)\<rparr>"

text \<open>\<^verbatim>\<open>Set.prototype.add\<close> on an insertion-ordered set.\<close>

definition set_add :: "string \<Rightarrow> string list \<Rightarrow> string list" where
  "set_add x xs = (if x \<in> set xs then xs else xs @ [x])"

section \<open>The client's operations\<close>

definition isConnected :: "client \<Rightarrow> bool" where
  "isConnected c =
     (case ws c of
        None \<Rightarrow> False
      | Some k \<Rightarrow> (case sockets c k of None \<Rightarrow> False | Some sk \<Rightarrow> readyState sk = OPEN))"

text \<open>
  \<^verbatim>\<open>this.ws!.send(JSON.stringify(frame))\<close>. The non-null assertion is erased by the
  compiler, so a null handle raises a \<^verbatim>\<open>TypeError\<close>; a handle that is not open refuses
  the frame, as the transport of the repository's tests does. The payloads and data that
  the application hands over are JSON values here, which \<^verbatim>\<open>JSON.stringify\<close> renders
  without raising.
\<close>

definition ws_send :: "frame \<Rightarrow> client \<Rightarrow> error option \<times> client" where
  "ws_send f c =
     (case ws c of
        None \<Rightarrow> (Some (TypeError ''Cannot read properties of null (reading 'send')''), c)
      | Some k \<Rightarrow>
          (if isConnected c then (None, c\<lparr>log := log c @ [Sent k f]\<rparr>)
           else (Some (TransportError ''WebSocket is not open''), c)))"

text \<open>
  \<^verbatim>\<open>ws.close(code, reason)\<close>: the call is recorded, and a handle that was connecting or
  open is closing from then on. The \<^verbatim>\<open>'close'\<close> event arrives later, from the
  environment.
\<close>

definition ws_close :: "nat \<Rightarrow> nat \<Rightarrow> string \<Rightarrow> client \<Rightarrow> client" where
  "ws_close k code reason c =
     c\<lparr>log := log c @ [CloseCall k code reason],
       sockets :=
         (case sockets c k of
            None \<Rightarrow> sockets c
          | Some sk \<Rightarrow>
              (if readyState sk = CLOSED then sockets c
               else (sockets c)(k \<mapsto> sk\<lparr>readyState := CLOSING\<rparr>)))\<rparr>"

datatype connect_result = ResolvedNow | RejectedNow error | Awaiting nat

text \<open>
  \<^verbatim>\<open>connect()\<close>. The early \<^verbatim>\<open>return\<close> of the \<^verbatim>\<open>async\<close> function is a promise that is
  already fulfilled. Otherwise a new handle is created and the returned promise is the one
  that handle's \<^verbatim>\<open>'open'\<close> and \<^verbatim>\<open>'error'\<close> handlers settle; when the constructor raises,
  the \<^verbatim>\<open>catch\<close> block rejects it at once.
\<close>

definition connect :: "caller \<Rightarrow> client \<Rightarrow> connect_result \<times> client" where
  "connect who c =
     (if isConnecting c \<or> isConnected c then (ResolvedNow, c)
      else
        (case url_error (options c) of
           Some m \<Rightarrow> (RejectedNow (SyntaxError m), c\<lparr>isConnecting := False\<rparr>)
         | None \<Rightarrow>
             (Awaiting (nextSocket c),
              c\<lparr>isConnecting := True,
                ws := Some (nextSocket c),
                sockets := (sockets c)(nextSocket c \<mapsto>
                  \<lparr>readyState = CONNECTING, connectPromise = Unsettled, awaitedBy = who\<rparr>),
                nextSocket := Suc (nextSocket c)\<rparr>)))"

definition scheduleReconnect :: "client \<Rightarrow> error option \<times> client" where
  "scheduleReconnect c =
     (if (case maxReconnectAttempts (options c) of None \<Rightarrow> 5 | Some m \<Rightarrow> m) \<le> reconnectAttempts c
      then emit_error (DaebusConnectionError ''Max reconnection attempts exceeded'') c
      else
        (None,
         snd (setTimeout Reconnect
                (case reconnectInterval (options c) of None \<Rightarrow> 5000 | Some d \<Rightarrow> d)
                (c\<lparr>isReconnecting := True, reconnectAttempts := Suc (reconnectAttempts c)\<rparr>))))"

text \<open>
  The continuation \<^verbatim>\<open>.catch((error) => { this.emit('error', error); this.scheduleReconnect(); })\<close>
  that the reconnect timer attaches to the promise of its \<^verbatim>\<open>connect()\<close> call.
\<close>

definition reconnect_failed :: "error \<Rightarrow> client \<Rightarrow> client" where
  "reconnect_failed e c =
     (case emit_error e c of
        (Some x, c1) \<Rightarrow> c1\<lparr>log := log c1 @ [UnhandledRejection x]\<rparr>
      | (None, c1) \<Rightarrow>
          (case scheduleReconnect c1 of
             (Some x, c2) \<Rightarrow> c2\<lparr>log := log c2 @ [UnhandledRejection x]\<rparr>
           | (None, c2) \<Rightarrow> c2))"

text \<open>The \<^verbatim>\<open>resolve\<close> and \<^verbatim>\<open>reject\<close> functions of the promise created for handle \<open>k\<close>.\<close>

definition resolve_connect :: "nat \<Rightarrow> client \<Rightarrow> client" where
  "resolve_connect k c =
     (case sockets c k of
        None \<Rightarrow> c
      | Some sk \<Rightarrow>
          (if connectPromise sk = Unsettled
           then c\<lparr>sockets := (sockets c)(k \<mapsto> sk\<lparr>connectPromise := Fulfilled\<rparr>)\<rparr>
           else c))"

definition reject_connect :: "nat \<Rightarrow> error \<Rightarrow> client \<Rightarrow> client" where
  "reject_connect k e c =
     (case sockets c k of
        None \<Rightarrow> c
      | Some sk \<Rightarrow>
          (if connectPromise sk = Unsettled
           then
             (let c1 = c\<lparr>sockets := (sockets c)(k \<mapsto> sk\<lparr>connectPromise := Rejected e\<rparr>)\<rparr>
              in if awaitedBy sk = ReconnectTimer
                 then c1\<lparr>microtasks := microtasks c1 @ [e]\<rparr> else c1)
           else c))"

text \<open>The closures stored in a \<^verbatim>\<open>PendingRequest\<close>: clear the timer, then settle.\<close>

definition resolve_pending :: "string \<Rightarrow> pending_request \<Rightarrow> json option \<Rightarrow> client \<Rightarrow> client" where
  "resolve_pending rid p d c =
     (let c1 = clearTimeout (pending_request.timeout p) c
      in c1\<lparr>log := log c1 @ [Resolved rid d]\<rparr>)"

definition reject_pending :: "string \<Rightarrow> pending_request \<Rightarrow> error \<Rightarrow> client \<Rightarrow> client" where
  "reject_pending rid p e c =
     (let c1 = clearTimeout (pending_request.timeout p) c
      in c1\<lparr>log := log c1 @ [RejectedWith rid e]\<rparr>)"

text \<open>The loop of \<^verbatim>\<open>disconnect\<close> over the pending map, in insertion order.\<close>

fun reject_all :: "(string \<times> pending_request) list \<Rightarrow> client \<Rightarrow> client" where
  "reject_all [] c = c"
| "reject_all ((rid, p) # rest) c =
     reject_all rest
       (reject_pending rid p (DaebusConnectionError ''Connection closed'')
          (clearTimeout (pending_request.timeout p) c))"

definition disconnect :: "client \<Rightarrow> client" where
  "disconnect c =
     (let c1 = (case ws c of
                  None \<Rightarrow> c
                | Some k \<Rightarrow> (ws_close k 1000 ''Client disconnect'' c)\<lparr>ws := None\<rparr>)
      in (reject_all (pendingRequests c1) c1)\<lparr>pendingRequests := []\<rparr>)"

text \<open>
  \<^verbatim>\<open>generateRequestId\<close>, with the reading of \<^verbatim>\<open>Date.now()\<close> as an argument. The clock
  and the request counter are natural numbers here; the counter of the source is a
  JavaScript number, which counts exactly as long as it stays below \<open>2 ^ 53\<close>.
\<close>

definition generateRequestId :: "nat \<Rightarrow> client \<Rightarrow> string \<times> client" where
  "generateRequestId now c =
     (''req_'' @ show_nat now @ ''_'' @ show_nat (Suc (requestCounter c)),
      c\<lparr>requestCounter := Suc (requestCounter c)\<rparr>)"

definition sendToChannel :: "string \<Rightarrow> daebus_message \<Rightarrow> client \<Rightarrow> error option \<times> client" where
  "sendToChannel channel msg c =
     (if \<not> isConnected c then (Some (DaebusConnectionError ''WebSocket is not connected''), c)
      else ws_send (PublishFrame channel msg) c)"

text \<open>
  \<^verbatim>\<open>sendAction(serviceName, action, payload, timeout)\<close>, with the two readings of
  \<^verbatim>\<open>Date.now()\<close> it makes (for the id and for the timestamp) as arguments. The result
  is the exception the call raises or the id whose promise the caller holds.
\<close>

definition sendAction ::
  "string \<Rightarrow> string \<Rightarrow> json \<Rightarrow> nat option \<Rightarrow> nat \<Rightarrow> nat \<Rightarrow> client \<Rightarrow> (error + string) \<times> client" where
  "sendAction serviceName act pl tmo now stamp c =
     (if \<not> isConnected c then (Inl (DaebusConnectionError ''WebSocket is not connected''), c)
      else
        (let (requestId, c1) = generateRequestId now c;
             msg = \<lparr>action = act, payload = pl, reply_channel = ''reply_'' @ requestId,
                    request_id = requestId, timestamp = stamp\<rparr>;
             d = (case tmo of
                    Some t \<Rightarrow> t
                  | None \<Rightarrow> (case options.timeout (options c) of Some t \<Rightarrow> t | None \<Rightarrow> 30000));
             (h, c2) = setTimeout (RequestTimeout requestId act) d c1;
             c3 = c2\<lparr>pendingRequests :=
                       AList.update requestId \<lparr>pending_request.timeout = h\<rparr> (pendingRequests c2)\<rparr>
         in (case sendToChannel serviceName msg c3 of
               (Some x, c4) \<Rightarrow> (Inl x, c4)
             | (None, c4) \<Rightarrow> (Inr requestId, c4))))"

definition subscribeToChannel :: "string \<Rightarrow> nat \<Rightarrow> client \<Rightarrow> error option \<times> client" where
  "subscribeToChannel channelName handler c =
     (if \<not> isConnected c then (Some (DaebusConnectionError ''WebSocket is not connected''), c)
      else
        ws_send (SubscribeFrame channelName)
          (on (''channel:'' @ channelName) handler
             (c\<lparr>subscribedChannels := set_add channelName (subscribedChannels c)\<rparr>)))"

definition unsubscribeFromChannel :: "string \<Rightarrow> client \<Rightarrow> error option \<times> client" where
  "unsubscribeFromChannel channelName c =
     (let c1 = removeAllListeners (''channel:'' @ channelName)
                 (c\<lparr>subscribedChannels := removeAll channelName (subscribedChannels c)\<rparr>)
      in if isConnected c1 then ws_send (UnsubscribeFrame channelName) c1 else (None, c1))"

definition broadcast :: "string \<Rightarrow> json \<Rightarrow> client \<Rightarrow> error option \<times> client" where
  "broadcast channel d c =
     (if \<not> isConnected c then (Some (DaebusConnectionError ''WebSocket is not connected''), c)
      else ws_send (BroadcastFrame channel d) c)"

text \<open>
  The message of \<^verbatim>\<open>new DaebusError(response.error || 'Unknown error')\<close>: the constructor of
  \<^verbatim>\<open>Error\<close> converts its argument to a string, and \<open>None\<close> is the exception of that
  conversion.
\<close>

definition error_text :: "json \<Rightarrow> string option" where
  "error_text response =
     (if truthy (get_prop response ''error'') then to_string (get_prop response ''error'')
      else Some ''Unknown error'')"

text \<open>
  \<^verbatim>\<open>handleResponse\<close> deletes the entry first and settles the promise after. When the
  error of a failed response does not convert to a string, the exception leaves
  \<^verbatim>\<open>handleResponse\<close> in between: the entry is gone, its \<^verbatim>\<open>reject\<close> was never called, and
  its timer is still armed.
\<close>

definition handleResponse :: "json \<Rightarrow> client \<Rightarrow> error option \<times> client" where
  "handleResponse response c =
     (case get_prop response ''request_id'' of
        Some (JStr requestId) \<Rightarrow>
          (case map_of (pendingRequests c) requestId of
             None \<Rightarrow> (None, c)
           | Some pendingRequest \<Rightarrow>
               (let c1 = c\<lparr>pendingRequests := AList.delete requestId (pendingRequests c)\<rparr>
                in if get_prop response ''success'' = Some (JBool False)
                   then (case error_text response of
                           None \<Rightarrow> (Some conversion_error, c1)
                         | Some s \<Rightarrow>
                             (None, reject_pending requestId pendingRequest (DaebusError s) c1))
                   else (None,
                         resolve_pending requestId pendingRequest (get_prop response ''data'') c1)))
      | _ \<Rightarrow> (None, c))"

text \<open>
  \<^verbatim>\<open>this.emit(`channel:${channel}`, data)\<close>: the template literal converts the channel to
  a string, which may raise, before anything is emitted.
\<close>

definition emit_channel :: "json option \<Rightarrow> json option \<Rightarrow> client \<Rightarrow> error option \<times> client" where
  "emit_channel channel d c =
     (case to_string channel of
        None \<Rightarrow> (Some conversion_error, c)
      | Some name \<Rightarrow> (None, emit (''channel:'' @ name) (DataArgument d) c))"

definition handleChannelMessage :: "json \<Rightarrow> client \<Rightarrow> error option \<times> client" where
  "handleChannelMessage msg c = emit_channel (get_prop msg ''channel'') (get_prop msg ''data'') c"

text \<open>\<^verbatim>\<open>this.pendingRequests.has(message.request_id)\<close>: the keys are strings.\<close>

definition pending_has :: "json option \<Rightarrow> client \<Rightarrow> bool" where
  "pending_has v c =
     (case v of Some (JStr rid) \<Rightarrow> map_of (pendingRequests c) rid \<noteq> None | _ \<Rightarrow> False)"

text \<open>
  What arrives on the transport, after \<^verbatim>\<open>JSON.parse(data.toString())\<close>: the parsed value,
  or the exception the parser raised.
\<close>

datatype inbound = Unparsable error | Parsed json

definition parse_failure :: "error \<Rightarrow> client \<Rightarrow> error option \<times> client" where
  "parse_failure e c = emit_error (DaebusError (''Failed to parse message: '' @ error_string e)) c"

text \<open>
  \<^verbatim>\<open>handleMessage\<close>. \<open>try_block\<close> is what the \<^verbatim>\<open>try\<close> block does with the parsed
  message, the chain of tests in the source's order, and the exception it ends with, if
  any: reading \<^verbatim>\<open>message.type\<close> of \<^verbatim>\<open>null\<close> raises a \<^verbatim>\<open>TypeError\<close>, and so do the
  conversions inside \<^verbatim>\<open>handleResponse\<close> and of a channel. \<open>caught\<close> is the \<^verbatim>\<open>catch\<close>
  block, which receives every exception of the \<^verbatim>\<open>try\<close> block, in the state the
  \<^verbatim>\<open>try\<close> block left. The first component of the result of \<^verbatim>\<open>handleMessage\<close> is the
  exception that leaves it, if any.
\<close>

definition try_block :: "json \<Rightarrow> client \<Rightarrow> error option \<times> client" where
  "try_block msg c =
     (if msg = JNull
      then (Some (TypeError ''Cannot read properties of null (reading 'type')''), c)
      else if get_prop msg ''type'' = Some (JStr ''response'') then handleResponse msg c
      else if get_prop msg ''type'' = Some (JStr ''channel_message'')
        then handleChannelMessage msg c
      else if truthy (get_prop msg ''channel'') \<and> truthy (get_prop msg ''data'')
        then emit_channel (get_prop msg ''channel'') (get_prop msg ''data'') c
      else if truthy (get_prop msg ''request_id'') \<and> pending_has (get_prop msg ''request_id'') c
        then handleResponse msg c
      else (None, emit ''message'' (MessageArgument msg) c))"

definition caught :: "error option \<times> client \<Rightarrow> error option \<times> client" where
  "caught r = (case r of (Some x, c) \<Rightarrow> parse_failure x c | (None, c) \<Rightarrow> (None, c))"

definition handleMessage :: "inbound \<Rightarrow> client \<Rightarrow> error option \<times> client" where
  "handleMessage data c =
     (case data of
        Unparsable e \<Rightarrow> parse_failure e c
      | Parsed msg \<Rightarrow> caught (try_block msg c))"

fun resubscribe_loop :: "string list \<Rightarrow> client \<Rightarrow> error option \<times> client" where
  "resubscribe_loop [] c = (None, c)"
| "resubscribe_loop (channel # rest) c =
     (case ws_send (SubscribeFrame channel) c of
        (Some x, c1) \<Rightarrow> (Some x, c1)
      | (None, c1) \<Rightarrow> resubscribe_loop rest c1)"

definition resubscribeToChannels :: "client \<Rightarrow> error option \<times> client" where
  "resubscribeToChannels c = resubscribe_loop (subscribedChannels c) c"

section \<open>The handlers \<^verbatim>\<open>connect\<close> attaches to a transport handle, and the timers\<close>

definition on_open :: "nat \<Rightarrow> client \<Rightarrow> error option \<times> client" where
  "on_open k c =
     (let c1 = emit ''connect'' NoArgument (c\<lparr>isConnecting := False, reconnectAttempts := 0\<rparr>)
      in if isReconnecting c1
         then (case resubscribeToChannels c1 of
                 (Some x, c2) \<Rightarrow> (Some x, c2)
               | (None, c2) \<Rightarrow> (None, resolve_connect k (c2\<lparr>isReconnecting := False\<rparr>)))
         else (None, resolve_connect k c1))"

definition on_close :: "nat \<Rightarrow> string \<Rightarrow> client \<Rightarrow> error option \<times> client" where
  "on_close code reason c =
     (let c1 = emit ''disconnect'' (CloseArguments code reason) (c\<lparr>isConnecting := False\<rparr>)
      in if code \<noteq> 1000 \<and> \<not> isReconnecting c1 then scheduleReconnect c1 else (None, c1))"

definition on_error :: "nat \<Rightarrow> error \<Rightarrow> client \<Rightarrow> error option \<times> client" where
  "on_error k e c =
     (case emit_error e (c\<lparr>isConnecting := False\<rparr>) of
        (Some x, c1) \<Rightarrow> (Some x, c1)
      | (None, c1) \<Rightarrow>
          (None,
           reject_connect k
             (DaebusConnectionError (''WebSocket connection failed: '' @ message e)) c1))"

text \<open>The callback of the timer \<^verbatim>\<open>sendAction\<close> sets.\<close>

definition request_timeout :: "string \<Rightarrow> string \<Rightarrow> client \<Rightarrow> client" where
  "request_timeout requestId act c =
     c\<lparr>pendingRequests := AList.delete requestId (pendingRequests c),
       log := log c @ [RejectedWith requestId (DaebusTimeoutError (''Action '' @ act @ '' timed out''))]\<rparr>"

text \<open>The callback of the timer \<^verbatim>\<open>scheduleReconnect\<close> sets.\<close>

definition reconnect_timeout :: "client \<Rightarrow> client" where
  "reconnect_timeout c =
     (if isReconnecting c
      then (case connect ReconnectTimer c of
              (RejectedNow e, c1) \<Rightarrow> c1\<lparr>microtasks := microtasks c1 @ [e]\<rparr>
            | (r, c1) \<Rightarrow> c1)
      else c)"

text \<open>The oldest continuation that has yet to run, run.\<close>

definition run_microtask :: "client \<Rightarrow> client" where
  "run_microtask c =
     (case microtasks c of
        [] \<Rightarrow> c
      | e # rest \<Rightarrow> reconnect_failed e (c\<lparr>microtasks := rest\<rparr>))"

definition fire :: "nat \<Rightarrow> client \<Rightarrow> client" where
  "fire h c =
     (case timers c h of
        None \<Rightarrow> c
      | Some t \<Rightarrow>
          (let c1 = c\<lparr>timers := (timers c)(h := None)\<rparr>
           in case callback t of
                RequestTimeout requestId act \<Rightarrow> request_timeout requestId act c1
              | Reconnect \<Rightarrow> reconnect_timeout c1))"

section \<open>Runs of the client\<close>

text \<open>
  A run is a sequence of calls of the public operations by the application and of events
  from the environment: the events of a transport handle and the expiry of a timer. The
  environment may raise any event of a handle that exists, with two restrictions of the
  transport: a handle opens only while it is connecting, and a closed handle raises no
  \<^verbatim>\<open>'close'\<close> event again. Timers may expire in any order, and a continuation may run
  at any point after its promise was rejected (the runtime runs it once the code that
  rejected the promise has returned, before the next timer or network event). The
  application may register a listener at any time, and whether a listener raises the
  error it is called with may change at any time.
\<close>

datatype event =
    Connect
  | Disconnect
  | SendAction string string json "nat option" nat nat
  | SubscribeToChannel string nat
  | UnsubscribeFromChannel string
  | SendToChannel string daebus_message
  | Broadcast string json
  | On string nat
  | WsOpen nat
  | WsMessage nat inbound
  | WsClose nat nat string
  | WsError nat string
  | TimerExpires nat
  | Microtask
  | Raises nat bool

definition set_readyState :: "nat \<Rightarrow> ready_state \<Rightarrow> client \<Rightarrow> client" where
  "set_readyState k r c =
     (case sockets c k of
        None \<Rightarrow> c
      | Some sk \<Rightarrow> c\<lparr>sockets := (sockets c)(k \<mapsto> sk\<lparr>readyState := r\<rparr>)\<rparr>)"

definition ready :: "client \<Rightarrow> nat \<Rightarrow> ready_state option" where
  "ready c k = map_option readyState (sockets c k)"

fun step :: "event \<Rightarrow> client \<Rightarrow> client" where
  "step Connect c = snd (connect Application c)"
| "step Disconnect c = disconnect c"
| "step (SendAction serviceName act pl tmo now stamp) c =
     snd (sendAction serviceName act pl tmo now stamp c)"
| "step (SubscribeToChannel channel handler) c = snd (subscribeToChannel channel handler c)"
| "step (UnsubscribeFromChannel channel) c = snd (unsubscribeFromChannel channel c)"
| "step (SendToChannel channel msg) c = snd (sendToChannel channel msg c)"
| "step (Broadcast channel d) c = snd (broadcast channel d c)"
| "step (On ev handler) c = on ev handler c"
| "step (WsOpen k) c =
     (if ready c k = Some CONNECTING then snd (on_open k (set_readyState k OPEN c)) else c)"
| "step (WsMessage k data) c =
     (if ready c k = None then c else snd (handleMessage data c))"
| "step (WsClose k code reason) c =
     (if ready c k = None \<or> ready c k = Some CLOSED then c
      else snd (on_close code reason (set_readyState k CLOSED c)))"
| "step (WsError k m) c =
     (if ready c k = None then c else snd (on_error k (TransportError m) c))"
| "step (TimerExpires h) c = fire h c"
| "step Microtask c = run_microtask c"
| "step (Raises h b) c = c\<lparr>raises := (raises c)(h := b)\<rparr>"

inductive reachable :: "client \<Rightarrow> bool" where
  start: "reachable (init opts)"
| next_step: "reachable c \<Longrightarrow> reachable (step e c)"

fun run :: "event list \<Rightarrow> client \<Rightarrow> client" where
  "run [] c = c"
| "run (e # es) c = run es (step e c)"

section \<open>Notions the statements use\<close>

text \<open>How often a log calls \<^verbatim>\<open>resolve\<close> or \<^verbatim>\<open>reject\<close> of the promise of a request id.\<close>

fun settles :: "string \<Rightarrow> effect \<Rightarrow> bool" where
  "settles rid (Resolved r d) = (r = rid)"
| "settles rid (RejectedWith r e) = (r = rid)"
| "settles rid x = False"

definition settled :: "effect list \<Rightarrow> string \<Rightarrow> nat" where
  "settled xs rid = length (filter (settles rid) xs)"

definition settlements :: "client \<Rightarrow> string \<Rightarrow> nat" where
  "settlements c = settled (log c)"

text \<open>\<^verbatim>\<open>this.pendingRequests.has(id)\<close>.\<close>

definition pending :: "client \<Rightarrow> string \<Rightarrow> bool" where
  "pending c rid = (map_of (pendingRequests c) rid \<noteq> None)"

text \<open>The request whose deadline the timer with handle \<open>h\<close> is, if it is one.\<close>

definition request_timer :: "client \<Rightarrow> nat \<Rightarrow> string option" where
  "request_timer c h =
     (case timers c h of
        None \<Rightarrow> None
      | Some t \<Rightarrow> (case callback t of RequestTimeout rid act \<Rightarrow> Some rid | Reconnect \<Rightarrow> None))"

definition reconnect_timer :: "client \<Rightarrow> nat \<Rightarrow> bool" where
  "reconnect_timer c h =
     (case timers c h of None \<Rightarrow> False | Some t \<Rightarrow> callback t = Reconnect)"

text \<open>An id that \<^verbatim>\<open>generateRequestId\<close> has produced so far, at some reading of the clock.\<close>

definition issued :: "client \<Rightarrow> string \<Rightarrow> bool" where
  "issued c rid =
     (\<exists>t n. 0 < n \<and> n \<le> requestCounter c \<and> rid = ''req_'' @ show_nat t @ ''_'' @ show_nat n)"

definition timers_bounded :: "client \<Rightarrow> bool" where
  "timers_bounded c = (\<forall>h. timers c h \<noteq> None \<longrightarrow> h < nextTimer c)"

text \<open>
  The invariant of the request correlator and the channel registry. The timer of a
  pending request is armed; a request whose timer is armed was issued and is not settled
  yet, and no request has two timers. An armed timer does not make its request pending:
  \<^verbatim>\<open>handleResponse\<close> may have deleted the entry and left before it cleared the timer.
\<close>

definition correlator_inv :: "client \<Rightarrow> bool" where
  "correlator_inv c =
     (distinct (map fst (pendingRequests c)) \<and>
      (\<forall>rid p. map_of (pendingRequests c) rid = Some p \<longrightarrow>
         request_timer c (pending_request.timeout p) = Some rid) \<and>
      (\<forall>h rid. request_timer c h = Some rid \<longrightarrow> issued c rid \<and> settlements c rid = 0) \<and>
      (\<forall>h h' rid. request_timer c h = Some rid \<and> request_timer c h' = Some rid \<longrightarrow> h = h') \<and>
      (\<forall>rid. 0 < settlements c rid \<longrightarrow> issued c rid) \<and>
      (\<forall>rid. settlements c rid \<le> 1) \<and>
      timers_bounded c \<and>
      distinct (subscribedChannels c))"

text \<open>A step that leaves the correlator and the registry alone.\<close>

definition quiet :: "client \<Rightarrow> client \<Rightarrow> bool" where
  "quiet c c' =
     (pendingRequests c' = pendingRequests c \<and>
      requestCounter c' = requestCounter c \<and>
      subscribedChannels c' = subscribedChannels c \<and>
      request_timer c' = request_timer c \<and>
      settlements c' = settlements c \<and>
      (\<forall>h. request_timer c h \<noteq> None \<longrightarrow> timers c' h = timers c h) \<and>
      (\<forall>h. timers c' h \<noteq> None \<longrightarrow> timers c h \<noteq> None \<or> h < nextTimer c') \<and>
      nextTimer c \<le> nextTimer c')"

text \<open>
  The exception of a message that cannot be parsed: the one \<^verbatim>\<open>JSON.parse\<close> raised, or,
  for the message \<^verbatim>\<open>null\<close>, the one that the first test of the \<^verbatim>\<open>try\<close> block raises.
\<close>

fun parse_error :: "inbound \<Rightarrow> error option" where
  "parse_error (Unparsable e) = Some e"
| "parse_error (Parsed JNull) =
     Some (TypeError ''Cannot read properties of null (reading 'type')'')"
| "parse_error (Parsed msg) = None"

text \<open>Calling the listeners of the channel \<open>name\<close> with the data of a frame.\<close>

definition deliver :: "string \<Rightarrow> json \<Rightarrow> client \<Rightarrow> client" where
  "deliver name msg c =
     c\<lparr>log := log c @
          map (\<lambda>h. Called h (''channel:'' @ name) (DataArgument (get_prop msg ''data'')))
            (listeners c (''channel:'' @ name))\<rparr>"

text \<open>
  The effect by which a response settles the request \<open>rid\<close> that it matches: every
  response has one but a failed response whose error does not convert to a string.
\<close>

definition settlement :: "string \<Rightarrow> json \<Rightarrow> effect option" where
  "settlement rid m =
     (if get_prop m ''success'' = Some (JBool False)
      then map_option (\<lambda>s. RejectedWith rid (DaebusError s)) (error_text m)
      else Some (Resolved rid (get_prop m ''data'')))"

text \<open>The log entry \<^verbatim>\<open>disconnect\<close> writes for one entry of the pending map.\<close>

definition connection_closed :: "string \<times> pending_request \<Rightarrow> effect" where
  "connection_closed = (\<lambda>(rid, p). RejectedWith rid (DaebusConnectionError ''Connection closed''))"

text \<open>
  The desired-active set as the specification describes it: a channel enters the set
  when a subscription is accepted (the connection is open), and leaves it when it is
  unsubscribed; nothing else changes the set.
\<close>

fun desired :: "event \<Rightarrow> client \<Rightarrow> string set \<Rightarrow> string set" where
  "desired (SubscribeToChannel channel handler) c S = (if isConnected c then insert channel S else S)"
| "desired (UnsubscribeFromChannel channel) c S = S - {channel}"
| "desired e c S = S"

fun desired_active :: "event list \<Rightarrow> client \<Rightarrow> string set \<Rightarrow> string set" where
  "desired_active [] c S = S"
| "desired_active (e # es) c S = desired_active es (step e c) (desired e c S)"

text \<open>
  A frame that the router takes for a response when it carries the id of a pending
  request: a frame of type \<^verbatim>\<open>response\<close>, or a frame that is no channel message, has not
  both a channel and data, and has a truthy \<^verbatim>\<open>request_id\<close>.
\<close>

definition response_frame :: "json \<Rightarrow> bool" where
  "response_frame m =
     (get_prop m ''type'' = Some (JStr ''response'') \<or>
      get_prop m ''type'' \<noteq> Some (JStr ''channel_message'') \<and>
      \<not> (truthy (get_prop m ''channel'') \<and> truthy (get_prop m ''data'')) \<and>
      truthy (get_prop m ''request_id''))"

text \<open>An inbound frame that is a response to the request \<open>rid\<close>.\<close>

fun carries :: "event \<Rightarrow> string \<Rightarrow> bool" where
  "carries (WsMessage k (Parsed m)) rid =
     (get_prop m ''request_id'' = Some (JStr rid) \<and> response_frame m)"
| "carries e rid = False"

text \<open>
  What can take a pending request out of the pending map: a response to it, the expiry
  of its timer, and \<^verbatim>\<open>disconnect()\<close>.
\<close>

fun destroys :: "event \<Rightarrow> client \<Rightarrow> string \<Rightarrow> bool" where
  "destroys (WsMessage k (Parsed m)) c rid =
     (get_prop m ''request_id'' = Some (JStr rid) \<and> response_frame m)"
| "destroys (TimerExpires h) c rid = (request_timer c h = Some rid)"
| "destroys Disconnect c rid = True"
| "destroys e c rid = False"

section \<open>Example sessions\<close>

text \<open>The options of the repository's tests, and sessions run on them.\<close>

definition example_options :: options where
  "example_options =
     \<lparr>url_error = None, reconnectInterval = Some 100, maxReconnectAttempts = Some 2,
      timeout = Some 1000\<rparr>"

definition session_open :: client where
  "session_open = run [On ''error'' 1, Connect, WsOpen 0] (init example_options)"

text \<open>The open session after a subscription, and after a request was sent on it.\<close>

definition session_subscribed :: client where
  "session_subscribed = run [SubscribeToChannel ''alerts'' 3] session_open"

definition session_pending :: client where
  "session_pending =
     run [SubscribeToChannel ''alerts'' 3,
          SendAction ''test-service'' ''ping'' (JObj []) (Some 500) 17 18] session_open"

definition success_response :: json where
  "success_response =
     JObj [(''type'', JStr ''response''), (''request_id'', JStr ''req_17_1''),
           (''success'', JBool True), (''data'', JObj [(''result'', JStr ''test'')])]"

definition error_response :: json where
  "error_response =
     JObj [(''type'', JStr ''response''), (''request_id'', JStr ''req_17_1''),
           (''success'', JBool False), (''error'', JStr ''Action failed'')]"

text \<open>
  A failed response to the pending request whose error is an object with a \<^verbatim>\<open>toString\<close>
  property of its own, as \<^verbatim>\<open>JSON.parse\<close> makes it of the text
  \<^verbatim>\<open>{"type":"response","request_id":"req_17_1","success":false,"error":{"toString":1}}\<close>,
  and the session after that frame has arrived.
\<close>

definition unconvertible_response :: json where
  "unconvertible_response =
     JObj [(''type'', JStr ''response''), (''request_id'', JStr ''req_17_1''),
           (''success'', JBool False), (''error'', JObj [(''toString'', JNum ''1'')])]"

definition session_orphaned :: client where
  "session_orphaned = run [WsMessage 0 (Parsed unconvertible_response)] session_pending"

text \<open>A channel message whose channel is such an object.\<close>

definition unconvertible_channel_frame :: json where
  "unconvertible_channel_frame =
     JObj [(''type'', JStr ''channel_message''), (''channel'', JObj [(''toString'', JNum ''1'')]),
           (''data'', JObj [(''level'', JStr ''high'')])]"

text \<open>
  Scenario B of the specification: subscribe, lose the connection with close code 1006,
  and let the reconnect timer expire; the new transport handle is connecting.
\<close>

definition reconnect_events :: "event list" where
  "reconnect_events =
     [On ''error'' 1, Connect, WsOpen 0, SubscribeToChannel ''alerts'' 3,
      WsClose 0 1006 ''Connection lost'', TimerExpires 0]"

definition session_reconnecting :: client where
  "session_reconnecting = run reconnect_events (init example_options)"

text \<open>A client whose first connection attempt is in flight.\<close>

definition session_connecting :: client where
  "session_connecting = run [On ''error'' 1, Connect] (init example_options)"

text \<open>A connected client on which the application registered no \<^verbatim>\<open>'error'\<close> listener.\<close>

definition session_bare :: client where
  "session_bare = run [Connect, WsOpen 0] (init example_options)"

text \<open>
  A connected client behind the repository's facade, on which the application registered
  no \<^verbatim>\<open>'error'\<close> listener: the listeners of the client are the four proxies of the
  facade's constructor, and the proxy for errors raises.
\<close>

definition session_proxied :: client where
  "session_proxied =
     run [On ''connect'' 10, On ''disconnect'' 11, On ''error'' 12, On ''message'' 13,
          Raises 12 True, Connect, WsOpen 0] (init example_options)"

text \<open>A frame that carries the id of the pending request, a channel and data, and no type.\<close>

definition tagged_channel_frame :: json where
  "tagged_channel_frame =
     JObj [(''channel'', JStr ''alerts''), (''data'', JObj [(''level'', JStr ''high'')]),
           (''request_id'', JStr ''req_17_1'')]"

text \<open>A frame that carries a channel and nothing else.\<close>

definition bare_channel_frame :: json where
  "bare_channel_frame = JObj [(''channel'', JStr ''alerts'')]"

text \<open>A subscribed client whose connection was lost with close code 1006.\<close>

definition session_lost :: client where
  "session_lost =
     run [On ''error'' 1, Connect, WsOpen 0, SubscribeToChannel ''alerts'' 3,
          WsClose 0 1006 ''Connection lost''] (init example_options)"

text \<open>
  The session with the pending request, at the moment its connection is lost with close
  code 1006. The request's timer (500 ms) was armed before the connection was lost, and
  the reconnect timers of the example options take 100 ms each.
\<close>

definition session_pending_lost :: client where
  "session_pending_lost = run [WsClose 0 1006 ''Connection lost''] session_pending"

text \<open>
  Scenario D of the specification, with a request pending under the default timeout of
  the options (1000 ms): the connection is lost with close code 1006 and both reconnect
  attempts that the options allow fail, 100 ms and 200 ms later (the transport raises
  \<^verbatim>\<open>'error'\<close> and then \<^verbatim>\<open>'close'\<close>, and the continuation of the rejected promise runs
  after both). The last continuation is where the attempts run out.
\<close>

definition exhausting_events :: "event list" where
  "exhausting_events =
     [On ''error'' 1, Connect, WsOpen 0,
      SendAction ''test-service'' ''ping'' (JObj []) None 17 18,
      WsClose 0 1006 ''Connection lost'',
      TimerExpires 1, WsError 1 ''ECONNREFUSED'', WsClose 1 1006 [], Microtask,
      TimerExpires 2, WsError 2 ''ECONNREFUSED'', WsClose 2 1006 []]"

definition session_exhausting :: client where
  "session_exhausting = run exhausting_events (init example_options)"

definition session_exhausted :: client where
  "session_exhausted = run [Microtask] session_exhausting"

section \<open>Request ids are injective in the counter\<close>

lemma below_ten: "d < 10 \<Longrightarrow> d \<in> {0, 1, 2, 3, 4, 5, 6, 7, 8, 9::nat}"
  by auto

lemma digit_char_not_underscore: "d < 10 \<Longrightarrow> digit_char d \<noteq> CHR ''_''"
  by (drule below_ten) (auto simp add: digit_char_def)

lemma digit_char_inj: "a < 10 \<Longrightarrow> b < 10 \<Longrightarrow> digit_char a = digit_char b \<Longrightarrow> a = b"
  by (drule below_ten, drule below_ten) (auto simp add: digit_char_def)

lemma show_nat_digit: "n < 10 \<Longrightarrow> show_nat n = [digit_char n]"
  by (simp add: show_nat.simps [of n])

lemma show_nat_nonempty: "show_nat n \<noteq> []"
  by (subst show_nat.simps) simp

lemma underscore_not_in_show_nat: "CHR ''_'' \<notin> set (show_nat n)"
proof (induction n rule: show_nat.induct)
  case (1 n)
  show ?case
  proof (cases "n < 10")
    case True
    then show ?thesis
      using digit_char_not_underscore [of n] by (subst show_nat.simps) auto
  next
    case False
    then show ?thesis
      using 1 digit_char_not_underscore [of "n mod 10"]
      by (subst show_nat.simps) auto
  qed
qed

lemma show_nat_inj: "show_nat m = show_nat n \<Longrightarrow> m = n"
proof (induction m arbitrary: n rule: show_nat.induct)
  case (1 m)
  note eq = \<open>show_nat m = show_nat n\<close>
  show ?case
  proof (cases "m < 10")
    case m: True
    show ?thesis
    proof (cases "n < 10")
      case True
      with m eq show ?thesis
        using digit_char_inj [of m n] by (simp add: show_nat.simps [of m] show_nat.simps [of n])
    next
      case False
      with m eq show ?thesis
        using show_nat_nonempty [of "n div 10"]
        by (simp add: show_nat.simps [of m] show_nat.simps [of n])
    qed
  next
    case m: False
    show ?thesis
    proof (cases "n < 10")
      case True
      with m eq show ?thesis
        using show_nat_nonempty [of "m div 10"]
        by (simp add: show_nat.simps [of m] show_nat.simps [of n])
    next
      case False
      with m eq have "show_nat (m div 10) = show_nat (n div 10)"
        and d: "digit_char (m mod 10) = digit_char (n mod 10)"
        by (simp_all add: show_nat.simps [of m] show_nat.simps [of n])
      with 1 m have "m div 10 = n div 10" by blast
      moreover have "m mod 10 = n mod 10"
        using d digit_char_inj [of "m mod 10" "n mod 10"] by simp
      ultimately show ?thesis by (metis div_mult_mod_eq)
    qed
  qed
qed

lemma split_at_separator:
  assumes "xs @ c # ys = xs' @ c # ys'" and "c \<notin> set ys" and "c \<notin> set ys'"
  shows "ys = ys'"
proof -
  let ?tw = "takeWhile (\<lambda>x. x \<noteq> c)"
  have a: "?tw (rev ys @ c # rev xs) = rev ys"
    using assms(2) by (auto simp add: takeWhile_tail)
  have b: "?tw (rev ys' @ c # rev xs') = rev ys'"
    using assms(3) by (auto simp add: takeWhile_tail)
  have "rev (xs @ c # ys) = rev (xs' @ c # ys')"
    using assms(1) by (rule arg_cong)
  then have "rev ys @ c # rev xs = rev ys' @ c # rev xs'"
    by simp
  then have "?tw (rev ys @ c # rev xs) = ?tw (rev ys' @ c # rev xs')"
    by (rule arg_cong)
  then have "rev ys = rev ys'"
    unfolding a b .
  then show ?thesis by simp
qed

lemma request_id_counter:
  assumes "''req_'' @ show_nat t @ ''_'' @ show_nat n = ''req_'' @ show_nat t' @ ''_'' @ show_nat n'"
  shows "n = n'"
proof -
  from assms have "show_nat t @ CHR ''_'' # show_nat n = show_nat t' @ CHR ''_'' # show_nat n'"
    by simp
  then have "show_nat n = show_nat n'"
    by (rule split_at_separator) (rule underscore_not_in_show_nat)+
  then show ?thesis by (rule show_nat_inj)
qed

section \<open>Steps that leave the correlator alone\<close>

lemma settled_append: "settled (xs @ ys) rid = settled xs rid + settled ys rid"
  by (simp add: settled_def)

lemma settled_Called: "settled (map (\<lambda>h. Called h ev a) hs) rid = 0"
  by (induction hs) (simp_all add: settled_def)

lemma settled_Nil: "settled [] rid = 0"
  by (simp add: settled_def)

lemma settled_single: "settled [x] rid = (if settles rid x then 1 else 0)"
  by (simp add: settled_def)

lemmas quiet_simps = quiet_def fun_eq_iff request_timer_def settlements_def settled_append
  settled_Called settled_single settled_Nil

lemma quiet_refl: "quiet c c"
  by (simp add: quiet_def)

lemma quiet_trans:
  assumes ab: "quiet a b" and bc: "quiet b c"
  shows "quiet a c"
proof -
  have t: "timers c h = timers a h" if "request_timer a h \<noteq> None" for h
  proof -
    from that ab have "timers b h = timers a h" and "request_timer b h \<noteq> None"
      by (simp_all add: quiet_def)
    with bc show ?thesis by (simp add: quiet_def)
  qed
  have n: "timers a h \<noteq> None \<or> h < nextTimer c" if "timers c h \<noteq> None" for h
  proof -
    from that bc have "timers b h \<noteq> None \<or> h < nextTimer c" by (simp add: quiet_def)
    moreover have "timers a h \<noteq> None \<or> h < nextTimer b" if "timers b h \<noteq> None"
      using that ab by (simp add: quiet_def)
    moreover have "nextTimer b \<le> nextTimer c" using bc by (simp add: quiet_def)
    ultimately show ?thesis by (meson order_less_le_trans)
  qed
  have "nextTimer a \<le> nextTimer c"
    using ab bc by (simp add: quiet_def)
  with t n ab bc show ?thesis
    unfolding quiet_def by (intro conjI allI impI) simp_all
qed

lemma quiet_bounded: "quiet c c' \<Longrightarrow> timers_bounded c \<Longrightarrow> timers_bounded c'"
  unfolding quiet_def timers_bounded_def by (meson order_less_le_trans)

lemma quiet_emit: "quiet c (emit ev a c)"
  by (simp add: quiet_simps emit_def)

lemma quiet_emit_error: "quiet c (snd (emit_error e c))"
  by (simp add: emit_error_def quiet_simps)

lemma quiet_on: "quiet c (on ev h c)"
  by (simp add: quiet_simps on_def)

lemma quiet_removeAllListeners: "quiet c (removeAllListeners ev c)"
  by (simp add: quiet_simps removeAllListeners_def)

lemma quiet_ws_send: "quiet c (snd (ws_send f c))"
  by (simp add: quiet_simps ws_send_def split: option.splits)

lemma quiet_ws_close: "quiet c (ws_close k code reason c)"
  by (simp add: quiet_simps ws_close_def split: option.splits)

lemma quiet_set_readyState: "quiet c (set_readyState k r c)"
  by (simp add: quiet_simps set_readyState_def split: option.splits)

lemma quiet_connect: "quiet c (snd (connect who c))"
  by (simp add: quiet_simps connect_def split: option.splits)

lemma quiet_unhandled: "quiet c (c\<lparr>log := log c @ [UnhandledRejection x]\<rparr>)"
  by (simp add: quiet_simps)

lemma quiet_flags:
  "quiet c (c\<lparr>isConnecting := a\<rparr>)"
  "quiet c (c\<lparr>isReconnecting := b\<rparr>)"
  "quiet c (c\<lparr>isConnecting := a, reconnectAttempts := n\<rparr>)"
  "quiet c (c\<lparr>ws := w\<rparr>)"
  by (simp_all add: quiet_simps)

lemma quiet_setTimeout_Reconnect:
  assumes "timers_bounded c"
  shows "quiet c (snd (setTimeout Reconnect d (c\<lparr>isReconnecting := x, reconnectAttempts := y\<rparr>)))"
proof -
  have "timers c (nextTimer c) = None"
    using assms by (auto simp add: timers_bounded_def)
  then show ?thesis
    by (simp add: quiet_simps setTimeout_def)
qed

lemma quiet_scheduleReconnect: "timers_bounded c \<Longrightarrow> quiet c (snd (scheduleReconnect c))"
  by (simp add: scheduleReconnect_def quiet_emit_error quiet_setTimeout_Reconnect)

lemma quiet_reconnect_failed:
  assumes "timers_bounded c"
  shows "quiet c (reconnect_failed e c)"
proof -
  obtain r1 c1 where e1: "emit_error e c = (r1, c1)" by (cases "emit_error e c")
  have q1: "quiet c c1" using quiet_emit_error [of c e] e1 by simp
  then have b1: "timers_bounded c1" using assms by (rule quiet_bounded)
  obtain r2 c2 where e2: "scheduleReconnect c1 = (r2, c2)" by (cases "scheduleReconnect c1")
  have q2: "quiet c1 c2" using quiet_scheduleReconnect [OF b1] e2 by simp
  have q12: "quiet c c2" using q1 q2 by (rule quiet_trans)
  show ?thesis
    using q1 q12 quiet_trans [OF q1 quiet_unhandled] quiet_trans [OF q12 quiet_unhandled]
    by (simp add: reconnect_failed_def e1 e2 split: option.splits)
qed

lemma quiet_resolve_connect: "quiet c (resolve_connect k c)"
  by (simp add: quiet_simps resolve_connect_def split: option.splits)

lemma quiet_reject_connect: "quiet c (reject_connect k e c)"
  by (simp add: quiet_simps reject_connect_def Let_def split: option.splits)

lemma quiet_run_microtask:
  assumes "timers_bounded c"
  shows "quiet c (run_microtask c)"
proof (cases "microtasks c")
  case Nil
  then show ?thesis by (simp add: run_microtask_def quiet_refl)
next
  case (Cons e rest)
  let ?c1 = "c\<lparr>microtasks := rest\<rparr>"
  have q1: "quiet c ?c1" by (simp add: quiet_simps)
  then have "timers_bounded ?c1" using assms by (rule quiet_bounded)
  then have "quiet ?c1 (reconnect_failed e ?c1)" by (rule quiet_reconnect_failed)
  with q1 have "quiet c (reconnect_failed e ?c1)" by (rule quiet_trans)
  then show ?thesis by (simp add: run_microtask_def Cons)
qed

lemma quiet_resubscribe_loop: "quiet c (snd (resubscribe_loop chs c))"
proof (induction chs arbitrary: c)
  case Nil
  then show ?case by (simp add: quiet_refl)
next
  case (Cons ch chs)
  obtain r c1 where s: "ws_send (SubscribeFrame ch) c = (r, c1)"
    by (cases "ws_send (SubscribeFrame ch) c")
  have q1: "quiet c c1" using quiet_ws_send [of c "SubscribeFrame ch"] s by simp
  show ?case
  proof (cases r)
    case None
    then show ?thesis using quiet_trans [OF q1 Cons.IH [of c1]] s by simp
  next
    case (Some x)
    then show ?thesis using q1 s by simp
  qed
qed

lemma quiet_resubscribeToChannels: "quiet c (snd (resubscribeToChannels c))"
proof -
  have "quiet c (snd (resubscribe_loop (subscribedChannels c) c))"
    by (rule quiet_resubscribe_loop)
  then show ?thesis by (simp add: resubscribeToChannels_def)
qed

lemma quiet_on_open: "quiet c (snd (on_open k c))"
proof -
  let ?c1 = "emit ''connect'' NoArgument (c\<lparr>isConnecting := False, reconnectAttempts := 0\<rparr>)"
  have q1: "quiet c ?c1"
    by (rule quiet_trans [OF quiet_flags(3) quiet_emit])
  obtain r c2 where rs: "resubscribeToChannels ?c1 = (r, c2)"
    by (cases "resubscribeToChannels ?c1")
  have q2: "quiet c c2"
    using quiet_trans [OF q1 quiet_resubscribeToChannels [of ?c1]] rs by simp
  have q3: "quiet c (resolve_connect k (c2\<lparr>isReconnecting := False\<rparr>))"
    by (rule quiet_trans [OF q2 quiet_trans [OF quiet_flags(2) quiet_resolve_connect]])
  have q4: "quiet c (resolve_connect k ?c1)"
    by (rule quiet_trans [OF q1 quiet_resolve_connect])
  show ?thesis
    using q2 q3 q4 by (simp add: on_open_def Let_def rs split: option.splits)
qed

lemma quiet_on_close:
  assumes "timers_bounded c"
  shows "quiet c (snd (on_close code reason c))"
proof -
  let ?c1 = "emit ''disconnect'' (CloseArguments code reason) (c\<lparr>isConnecting := False\<rparr>)"
  have q1: "quiet c ?c1"
    by (rule quiet_trans [OF quiet_flags(1) quiet_emit])
  then have "timers_bounded ?c1" using assms by (rule quiet_bounded)
  then have "quiet ?c1 (snd (scheduleReconnect ?c1))" by (rule quiet_scheduleReconnect)
  with q1 have "quiet c (snd (scheduleReconnect ?c1))" by (rule quiet_trans)
  with q1 show ?thesis by (simp add: on_close_def Let_def)
qed

lemma quiet_on_error: "quiet c (snd (on_error k e c))"
proof -
  obtain r c1 where e1: "emit_error e (c\<lparr>isConnecting := False\<rparr>) = (r, c1)"
    by (cases "emit_error e (c\<lparr>isConnecting := False\<rparr>)")
  have q1: "quiet c c1"
    using quiet_trans [OF quiet_flags(1) quiet_emit_error [of "c\<lparr>isConnecting := False\<rparr>" e]] e1
    by simp
  have "quiet c1 (reject_connect k (DaebusConnectionError (''WebSocket connection failed: '' @ message e)) c1)"
    by (rule quiet_reject_connect)
  with q1 have "quiet c (reject_connect k (DaebusConnectionError (''WebSocket connection failed: '' @ message e)) c1)"
    by (rule quiet_trans)
  with q1 show ?thesis by (simp add: on_error_def e1 split: option.splits)
qed

lemma quiet_reconnect_timeout: "quiet c (reconnect_timeout c)"
proof -
  obtain r c1 where e1: "connect ReconnectTimer c = (r, c1)"
    by (cases "connect ReconnectTimer c")
  have q1: "quiet c c1" using quiet_connect [of c ReconnectTimer] e1 by simp
  have "quiet c1 (c1\<lparr>microtasks := microtasks c1 @ [x]\<rparr>)" for x
    by (simp add: quiet_simps)
  with q1 have "quiet c (c1\<lparr>microtasks := microtasks c1 @ [x]\<rparr>)" for x
    by (rule quiet_trans)
  with q1 show ?thesis
    by (simp add: reconnect_timeout_def e1 quiet_refl split: connect_result.splits)
qed

lemma quiet_sendToChannel: "quiet c (snd (sendToChannel ch msg c))"
  by (simp add: sendToChannel_def quiet_refl quiet_ws_send)

lemma quiet_broadcast: "quiet c (snd (broadcast ch d c))"
  by (simp add: broadcast_def quiet_refl quiet_ws_send)

lemma quiet_emit_channel: "quiet c (snd (emit_channel ch d c))"
  by (simp add: emit_channel_def quiet_refl quiet_emit split: option.splits)

lemma quiet_handleChannelMessage: "quiet c (snd (handleChannelMessage msg c))"
  by (simp add: handleChannelMessage_def quiet_emit_channel)

lemma quiet_raises: "quiet c (c\<lparr>raises := r\<rparr>)"
  by (simp add: quiet_simps)

lemma quiet_parse_failure: "quiet c (snd (parse_failure e c))"
  by (simp add: parse_failure_def quiet_emit_error)

section \<open>The invariant holds in every reachable state\<close>

lemma issued_mono: "issued c rid \<Longrightarrow> requestCounter c \<le> requestCounter c' \<Longrightarrow> issued c' rid"
proof -
  assume "issued c rid" and le: "requestCounter c \<le> requestCounter c'"
  then obtain t n where "0 < n" "n \<le> requestCounter c"
    "rid = ''req_'' @ show_nat t @ ''_'' @ show_nat n"
    unfolding issued_def by blast
  with le have "0 < n \<and> n \<le> requestCounter c' \<and> rid = ''req_'' @ show_nat t @ ''_'' @ show_nat n"
    by simp
  then show ?thesis unfolding issued_def by blast
qed

lemma inv_quiet:
  assumes "correlator_inv c" and "quiet c c'"
  shows "correlator_inv c'"
proof -
  have eqs: "pendingRequests c' = pendingRequests c" "requestCounter c' = requestCounter c"
    "subscribedChannels c' = subscribedChannels c" "request_timer c' = request_timer c"
    "settlements c' = settlements c"
    using assms(2) by (simp_all add: quiet_def)
  have iss: "issued c' = issued c"
    by (simp add: fun_eq_iff issued_def eqs)
  have "timers_bounded c" using assms(1) by (simp add: correlator_inv_def)
  with assms(2) have "timers_bounded c'" by (rule quiet_bounded)
  with assms(1) show ?thesis
    by (simp add: correlator_inv_def eqs iss)
qed

lemma inv_bounded: "correlator_inv c \<Longrightarrow> timers_bounded c"
  by (simp add: correlator_inv_def)

lemma correlator_invI:
  assumes "distinct (map fst (pendingRequests c))"
    and "\<forall>r q. map_of (pendingRequests c) r = Some q \<longrightarrow>
           request_timer c (pending_request.timeout q) = Some r"
    and "\<forall>h r. request_timer c h = Some r \<longrightarrow> issued c r \<and> settlements c r = 0"
    and "\<forall>h h' r. request_timer c h = Some r \<and> request_timer c h' = Some r \<longrightarrow> h = h'"
    and "\<forall>r. 0 < settlements c r \<longrightarrow> issued c r"
    and "\<forall>r. settlements c r \<le> 1"
    and "timers_bounded c"
    and "distinct (subscribedChannels c)"
  shows "correlator_inv c"
  unfolding correlator_inv_def using assms by (intro conjI)

lemma inv_timer:
  "correlator_inv c \<Longrightarrow> map_of (pendingRequests c) r = Some q \<Longrightarrow>
   request_timer c (pending_request.timeout q) = Some r"
  by (simp add: correlator_inv_def)

lemma inv_armed:
  "correlator_inv c \<Longrightarrow> request_timer c h = Some r \<Longrightarrow> issued c r \<and> settlements c r = 0"
  unfolding correlator_inv_def by (elim conjE) (erule allE [of _ h], erule allE [of _ r], simp)

lemma inv_unique:
  "correlator_inv c \<Longrightarrow> request_timer c h = Some r \<Longrightarrow> request_timer c h' = Some r \<Longrightarrow> h = h'"
  unfolding correlator_inv_def by (elim conjE) (erule allE [of "\<lambda>h. \<forall>h' r. _ h h' r" h], blast)

lemma inv_pending:
  assumes "correlator_inv c" and "map_of (pendingRequests c) r = Some q"
  shows "issued c r \<and> settlements c r = 0"
  using inv_armed [OF assms(1) inv_timer [OF assms]] .

lemma inv_pending_handle:
  assumes "correlator_inv c" and "map_of (pendingRequests c) r = Some q"
    and "request_timer c h = Some r"
  shows "q = \<lparr>pending_request.timeout = h\<rparr>"
proof -
  have "pending_request.timeout q = h"
    using inv_unique [OF assms(1) inv_timer [OF assms(1,2)] assms(3)] .
  then show ?thesis by simp
qed

text \<open>
  Settling a request whose timer is armed: its entry goes if it is still there, the
  timer goes, and one settlement is logged.
\<close>

lemma inv_settle:
  assumes inv: "correlator_inv c"
    and t: "request_timer c h = Some rid"
    and x: "settles rid x" "\<And>r. r \<noteq> rid \<Longrightarrow> \<not> settles r x"
  shows "correlator_inv
           (c\<lparr>pendingRequests := AList.delete rid (pendingRequests c),
              timers := (timers c)(h := None),
              log := log c @ [x]\<rparr>)"
    (is "correlator_inv ?c'")
proof -
  from inv have d: "distinct (map fst (pendingRequests c))"
    and i4: "\<And>r. 0 < settlements c r \<Longrightarrow> issued c r"
    and i5: "\<And>r. settlements c r \<le> 1"
    and i6: "timers_bounded c"
    and i7: "distinct (subscribedChannels c)"
    by (simp_all add: correlator_inv_def)
  have s0: "settlements c rid = 0" and iss: "issued c rid"
    using inv_armed [OF inv t] by simp_all
  have rt: "request_timer ?c' h' = (if h' = h then None else request_timer c h')" for h'
    by (simp add: request_timer_def)
  have st: "settlements ?c' r = (if r = rid then 1 else settlements c r)" for r
    using x s0 by (auto simp add: settlements_def settled_append settled_single)
  have is': "issued ?c' = issued c"
    by (simp add: fun_eq_iff issued_def)
  have c1: "distinct (map fst (pendingRequests ?c'))"
    using d by (simp add: distinct_delete)
  have c2: "request_timer ?c' (pending_request.timeout q) = Some r"
    if "map_of (pendingRequests ?c') r = Some q" for r q
  proof -
    from that have ne: "r \<noteq> rid" and old: "map_of (pendingRequests c) r = Some q"
      by (simp_all add: delete_conv' split: if_splits)
    have o: "request_timer c (pending_request.timeout q) = Some r"
      using inv old by (rule inv_timer)
    with t ne have "pending_request.timeout q \<noteq> h" by auto
    with o show ?thesis by (simp add: rt)
  qed
  have c3: "issued ?c' r \<and> settlements ?c' r = 0" if "request_timer ?c' h' = Some r" for h' r
  proof -
    from that have nh: "h' \<noteq> h" and old: "request_timer c h' = Some r"
      by (simp_all add: rt split: if_splits)
    have "r \<noteq> rid"
      using inv_unique [OF inv old] t nh by auto
    with inv_armed [OF inv old] show ?thesis by (simp add: st is')
  qed
  have c3u: "h1 = h2" if "request_timer ?c' h1 = Some r" "request_timer ?c' h2 = Some r" for h1 h2 r
  proof -
    from that have "request_timer c h1 = Some r" "request_timer c h2 = Some r"
      by (simp_all add: rt split: if_splits)
    then show ?thesis by (rule inv_unique [OF inv])
  qed
  have c4: "issued ?c' r" if "0 < settlements ?c' r" for r
    using that iss i4 [of r] by (simp add: st is' split: if_splits)
  have c5: "settlements ?c' r \<le> 1" for r
    using i5 [of r] by (simp add: st)
  have c6: "timers_bounded ?c'"
    using i6 by (simp add: timers_bounded_def)
  have c7: "distinct (subscribedChannels ?c')"
    using i7 by simp
  have c2': "\<forall>r q. map_of (pendingRequests ?c') r = Some q \<longrightarrow>
               request_timer ?c' (pending_request.timeout q) = Some r"
    using c2 by blast
  have c3': "\<forall>h r. request_timer ?c' h = Some r \<longrightarrow> issued ?c' r \<and> settlements ?c' r = 0"
    using c3 by blast
  have c3u': "\<forall>h h' r. request_timer ?c' h = Some r \<and> request_timer ?c' h' = Some r \<longrightarrow> h = h'"
    using c3u by blast
  have c4': "\<forall>r. 0 < settlements ?c' r \<longrightarrow> issued ?c' r"
    using c4 by blast
  have c5': "\<forall>r. settlements ?c' r \<le> 1"
    using c5 by blast
  show ?thesis
    by (rule correlator_invI [OF c1 c2' c3' c3u' c4' c5' c6 c7])
qed

text \<open>Deleting an entry and nothing else leaves a timer without an entry.\<close>

lemma inv_drop:
  assumes inv: "correlator_inv c"
  shows "correlator_inv (c\<lparr>pendingRequests := AList.delete rid (pendingRequests c)\<rparr>)"
    (is "correlator_inv ?c'")
proof -
  have same: "request_timer ?c' = request_timer c" "settlements ?c' = settlements c"
    "issued ?c' = issued c" "timers_bounded ?c' = timers_bounded c"
    by (simp_all add: fun_eq_iff request_timer_def settlements_def issued_def timers_bounded_def)
  have c1: "distinct (map fst (pendingRequests ?c'))"
    using inv by (simp add: correlator_inv_def distinct_delete)
  have c2: "\<forall>r q. map_of (pendingRequests ?c') r = Some q \<longrightarrow>
               request_timer ?c' (pending_request.timeout q) = Some r"
  proof (intro allI impI)
    fix r q assume "map_of (pendingRequests ?c') r = Some q"
    then have "map_of (pendingRequests c) r = Some q"
      by (simp add: delete_conv' split: if_splits)
    with inv show "request_timer ?c' (pending_request.timeout q) = Some r"
      unfolding same by (rule inv_timer)
  qed
  from inv have rest:
    "\<forall>h r. request_timer c h = Some r \<longrightarrow> issued c r \<and> settlements c r = 0"
    "\<forall>h h' r. request_timer c h = Some r \<and> request_timer c h' = Some r \<longrightarrow> h = h'"
    "\<forall>r. 0 < settlements c r \<longrightarrow> issued c r"
    "\<forall>r. settlements c r \<le> 1"
    "timers_bounded c"
    "distinct (subscribedChannels c)"
    by (simp_all add: correlator_inv_def)
  have c7: "distinct (subscribedChannels ?c')" using rest(6) by simp
  have c3: "\<forall>h r. request_timer ?c' h = Some r \<longrightarrow> issued ?c' r \<and> settlements ?c' r = 0"
    unfolding same by (rule rest(1))
  have c4: "\<forall>h h' r. request_timer ?c' h = Some r \<and> request_timer ?c' h' = Some r \<longrightarrow> h = h'"
    unfolding same by (rule rest(2))
  have c5: "\<forall>r. 0 < settlements ?c' r \<longrightarrow> issued ?c' r"
    unfolding same by (rule rest(3))
  have c6: "\<forall>r. settlements ?c' r \<le> 1"
    unfolding same by (rule rest(4))
  have c8: "timers_bounded ?c'"
    unfolding same by (rule rest(5))
  show ?thesis
    by (rule correlator_invI [OF c1 c2 c3 c4 c5 c6 c8 c7])
qed

lemma inv_cong:
  assumes "correlator_inv c"
    and "pendingRequests c' = pendingRequests c" "timers c' = timers c" "log c' = log c"
    and "requestCounter c' = requestCounter c" "nextTimer c' = nextTimer c"
    and "subscribedChannels c' = subscribedChannels c"
  shows "correlator_inv c'"
  using assms
  by (simp add: correlator_inv_def issued_def request_timer_def settlements_def timers_bounded_def)

lemma settled_Cons: "settled (x # xs) r = (if settles r x then 1 else 0) + settled xs r"
  by (simp add: settled_def)

lemma settlement_settles:
  assumes "settlement rid m = Some x"
  shows "settles rid x" and "r \<noteq> rid \<Longrightarrow> \<not> settles r x"
  using assms by (auto simp add: settlement_def split: if_splits)

text \<open>What \<^verbatim>\<open>handleResponse\<close> does with a response whose id is pending, and with any other.\<close>

lemma handleResponse_match:
  assumes "get_prop m ''request_id'' = Some (JStr rid)"
    and "map_of (pendingRequests c) rid = Some p"
  shows "handleResponse m c =
           (case settlement rid m of
              None \<Rightarrow>
                (Some conversion_error,
                 c\<lparr>pendingRequests := AList.delete rid (pendingRequests c)\<rparr>)
            | Some x \<Rightarrow>
                (None,
                 c\<lparr>pendingRequests := AList.delete rid (pendingRequests c),
                   timers := (timers c)(pending_request.timeout p := None),
                   log := log c @ [x]\<rparr>))"
  using assms
  by (simp add: handleResponse_def settlement_def reject_pending_def resolve_pending_def
      clearTimeout_def Let_def split: option.splits)

lemma handleResponse_nomatch:
  assumes "\<And>rid. get_prop m ''request_id'' = Some (JStr rid) \<Longrightarrow> map_of (pendingRequests c) rid = None"
  shows "handleResponse m c = (None, c)"
  using assms by (simp add: handleResponse_def split: option.splits json.splits)

lemma inv_handleResponse:
  assumes "correlator_inv c"
  shows "correlator_inv (snd (handleResponse m c))"
proof (cases "\<exists>rid p. get_prop m ''request_id'' = Some (JStr rid) \<and> map_of (pendingRequests c) rid = Some p")
  case True
  then obtain rid p where m: "get_prop m ''request_id'' = Some (JStr rid)"
    and p: "map_of (pendingRequests c) rid = Some p" by blast
  have t: "request_timer c (pending_request.timeout p) = Some rid"
    using assms p by (rule inv_timer)
  show ?thesis
  proof (cases "settlement rid m")
    case None
    then show ?thesis
      unfolding handleResponse_match [OF m p] using inv_drop [OF assms, of rid] by simp
  next
    case (Some x)
    then show ?thesis
      unfolding handleResponse_match [OF m p]
      using inv_settle [OF assms t settlement_settles [OF Some]] by simp
  qed
next
  case False
  then have "handleResponse m c = (None, c)"
    by (intro handleResponse_nomatch) (metis not_Some_eq)
  with assms show ?thesis by simp
qed

lemma quiet_caught: "quiet (snd r) (snd (caught r))"
  by (cases r) (simp add: caught_def quiet_parse_failure quiet_refl split: option.splits)

lemma inv_try_block:
  assumes "correlator_inv c"
  shows "correlator_inv (snd (try_block m c))"
proof -
  have b: "correlator_inv (emit ev x c)" for ev x
    using assms quiet_emit by (rule inv_quiet)
  have e: "correlator_inv (snd (emit_channel ch d c))" for ch d
    using assms quiet_emit_channel by (rule inv_quiet)
  show ?thesis
    using assms b e inv_handleResponse [OF assms]
    by (simp add: try_block_def handleChannelMessage_def)
qed

lemma inv_handleMessage:
  assumes "correlator_inv c"
  shows "correlator_inv (snd (handleMessage d c))"
proof (cases d)
  case (Unparsable e)
  then show ?thesis
    using inv_quiet [OF assms quiet_parse_failure] by (simp add: handleMessage_def)
next
  case (Parsed m)
  have "correlator_inv (snd (caught (try_block m c)))"
    using inv_try_block [OF assms] quiet_caught by (rule inv_quiet)
  with Parsed show ?thesis by (simp add: handleMessage_def)
qed

lemma inv_fire:
  assumes inv: "correlator_inv c"
  shows "correlator_inv (fire h c)"
proof (cases "timers c h")
  case None
  with inv show ?thesis by (simp add: fire_def)
next
  case (Some t)
  show ?thesis
  proof (cases "callback t")
    case (RequestTimeout rid act)
    with Some have rt: "request_timer c h = Some rid" by (simp add: request_timer_def)
    have "correlator_inv
            (c\<lparr>pendingRequests := AList.delete rid (pendingRequests c),
               timers := (timers c)(h := None),
               log := log c @ [RejectedWith rid (DaebusTimeoutError (''Action '' @ act @ '' timed out''))]\<rparr>)"
      by (rule inv_settle [OF inv rt]) simp_all
    then show ?thesis
      by (rule inv_cong) (simp_all add: fire_def Some RequestTimeout request_timeout_def)
  next
    case Reconnect
    let ?c1 = "c\<lparr>timers := (timers c)(h := None)\<rparr>"
    have q1: "quiet c ?c1"
      using Some Reconnect by (simp add: quiet_simps)
    have "quiet ?c1 (reconnect_timeout ?c1)" by (rule quiet_reconnect_timeout)
    with q1 have "quiet c (reconnect_timeout ?c1)" by (rule quiet_trans)
    with inv have "correlator_inv (reconnect_timeout ?c1)" by (rule inv_quiet)
    then show ?thesis by (simp add: fire_def Some Reconnect)
  qed
qed


lemma reject_all_eq:
  "reject_all ps c =
     c\<lparr>timers := (\<lambda>h. if h \<in> (pending_request.timeout \<circ> snd) ` set ps then None else timers c h),
       log := log c @ map connection_closed ps\<rparr>"
proof (induction ps arbitrary: c)
  case Nil
  then show ?case by simp
next
  case (Cons a ps)
  obtain rid p where a: "a = (rid, p)" by (cases a)
  show ?case
    unfolding a reject_all.simps Cons.IH
    by (auto simp add: reject_pending_def clearTimeout_def connection_closed_def fun_eq_iff)
qed

lemma settled_rejections:
  "distinct (map fst ps) \<Longrightarrow>
   settled (map connection_closed ps) r = (if r \<in> fst ` set ps then 1 else 0)"
proof (induction ps)
  case Nil
  then show ?case by (simp add: settled_Nil)
next
  case (Cons a ps)
  then show ?case
    by (cases a) (auto simp add: settled_Cons connection_closed_def)
qed

text \<open>A timer that \<^verbatim>\<open>disconnect\<close> leaves armed belongs to no pending request.\<close>

lemma spared_timer:
  assumes inv: "correlator_inv c"
    and old: "request_timer c h = Some r"
    and nh: "h \<notin> (pending_request.timeout \<circ> snd) ` set (pendingRequests c)"
  shows "r \<notin> fst ` set (pendingRequests c)"
proof
  assume "r \<in> fst ` set (pendingRequests c)"
  then have "map_of (pendingRequests c) r \<noteq> None" by (simp add: map_of_eq_None_iff)
  then obtain q where q: "map_of (pendingRequests c) r = Some q" by blast
  then have "q = \<lparr>pending_request.timeout = h\<rparr>"
    using inv_pending_handle [OF inv _ old] by simp
  with q have "(r, \<lparr>pending_request.timeout = h\<rparr>) \<in> set (pendingRequests c)"
    by (simp add: map_of_SomeD)
  then have "(pending_request.timeout \<circ> snd) (r, \<lparr>pending_request.timeout = h\<rparr>)
               \<in> (pending_request.timeout \<circ> snd) ` set (pendingRequests c)"
    by (rule imageI)
  with nh show False by simp
qed

lemma inv_reject_all:
  assumes inv: "correlator_inv c"
  shows "correlator_inv ((reject_all (pendingRequests c) c)\<lparr>pendingRequests := []\<rparr>)"
    (is "correlator_inv ?c'")
proof -
  let ?ps = "pendingRequests c"
  let ?H = "(pending_request.timeout \<circ> snd) ` set ?ps"
  from inv have d: "distinct (map fst ?ps)"
    and i4: "\<And>r. 0 < settlements c r \<Longrightarrow> issued c r"
    and i5: "\<And>r. settlements c r \<le> 1"
    and i6: "timers_bounded c"
    and i7: "distinct (subscribedChannels c)"
    by (simp_all add: correlator_inv_def)
  have rt: "request_timer ?c' h = (if h \<in> ?H then None else request_timer c h)" for h
    by (simp add: reject_all_eq request_timer_def)
  have st: "settlements ?c' r = settlements c r + (if r \<in> fst ` set ?ps then 1 else 0)" for r
    by (simp add: reject_all_eq settlements_def settled_append settled_rejections [OF d])
  have is': "issued ?c' = issued c"
    by (simp add: fun_eq_iff issued_def reject_all_eq)
  have key: "\<exists>q. map_of ?ps r = Some q" if "r \<in> fst ` set ?ps" for r
  proof -
    from that have "map_of ?ps r \<noteq> None" by (simp add: map_of_eq_None_iff)
    then show ?thesis by blast
  qed
  have c3: "issued ?c' r \<and> settlements ?c' r = 0" if "request_timer ?c' h = Some r" for h r
  proof -
    from that have nh: "h \<notin> ?H" and old: "request_timer c h = Some r"
      by (simp_all add: rt split: if_splits)
    have "r \<notin> fst ` set ?ps" using inv old nh by (rule spared_timer)
    with inv_armed [OF inv old] show ?thesis by (simp add: st is')
  qed
  have c3u: "h1 = h2" if "request_timer ?c' h1 = Some r" "request_timer ?c' h2 = Some r" for h1 h2 r
  proof -
    from that have "request_timer c h1 = Some r" "request_timer c h2 = Some r"
      by (simp_all add: rt split: if_splits)
    then show ?thesis by (rule inv_unique [OF inv])
  qed
  have c4: "issued ?c' r" if "0 < settlements ?c' r" for r
  proof (cases "r \<in> fst ` set ?ps")
    case True
    with key obtain q where "map_of ?ps r = Some q" by blast
    with inv have "issued c r" using inv_pending by blast
    then show ?thesis by (simp add: is')
  next
    case False
    with that i4 [of r] show ?thesis by (simp add: st is')
  qed
  have c5: "settlements ?c' r \<le> 1" for r
  proof (cases "r \<in> fst ` set ?ps")
    case True
    with key obtain q where "map_of ?ps r = Some q" by blast
    with inv have "settlements c r = 0" using inv_pending by blast
    with True show ?thesis by (simp add: st)
  next
    case False
    with i5 [of r] show ?thesis by (simp add: st)
  qed
  have c6: "timers_bounded ?c'"
    using i6 by (simp add: timers_bounded_def reject_all_eq)
  have c7: "distinct (subscribedChannels ?c')"
    using i7 by (simp add: reject_all_eq)
  have c3': "\<forall>h r. request_timer ?c' h = Some r \<longrightarrow> issued ?c' r \<and> settlements ?c' r = 0"
    using c3 by blast
  have c3u': "\<forall>h h' r. request_timer ?c' h = Some r \<and> request_timer ?c' h' = Some r \<longrightarrow> h = h'"
    using c3u by blast
  have c2': "\<forall>r q. map_of (pendingRequests ?c') r = Some q \<longrightarrow>
               request_timer ?c' (pending_request.timeout q) = Some r"
    by simp
  have c1': "distinct (map fst (pendingRequests ?c'))" by simp
  have c4': "\<forall>r. 0 < settlements ?c' r \<longrightarrow> issued ?c' r"
    using c4 by blast
  have c5': "\<forall>r. settlements ?c' r \<le> 1"
    using c5 by blast
  show ?thesis
    by (rule correlator_invI [OF c1' c2' c3' c3u' c4' c5' c6 c7])
qed

lemma inv_disconnect:
  assumes inv: "correlator_inv c"
  shows "correlator_inv (disconnect c)"
proof -
  define c1 where "c1 = (case ws c of None \<Rightarrow> c
                         | Some k \<Rightarrow> (ws_close k 1000 ''Client disconnect'' c)\<lparr>ws := None\<rparr>)"
  have "quiet c c1"
    unfolding c1_def
    by (auto split: option.splits intro: quiet_refl quiet_trans [OF quiet_ws_close quiet_flags(4)])
  with inv have "correlator_inv c1" by (rule inv_quiet)
  then have "correlator_inv ((reject_all (pendingRequests c1) c1)\<lparr>pendingRequests := []\<rparr>)"
    by (rule inv_reject_all)
  then show ?thesis by (simp add: disconnect_def c1_def Let_def)
qed

lemma fresh_not_issued:
  "\<not> issued c (''req_'' @ show_nat now @ ''_'' @ show_nat (Suc (requestCounter c)))"
proof
  assume "issued c (''req_'' @ show_nat now @ ''_'' @ show_nat (Suc (requestCounter c)))"
  then obtain t n where n: "n \<le> requestCounter c"
    and eq: "''req_'' @ show_nat now @ ''_'' @ show_nat (Suc (requestCounter c)) =
             ''req_'' @ show_nat t @ ''_'' @ show_nat n"
    unfolding issued_def by blast
  from eq have "Suc (requestCounter c) = n" by (rule request_id_counter)
  with n show False by simp
qed

lemma inv_register:
  assumes inv: "correlator_inv c"
    and rid: "rid = ''req_'' @ show_nat now @ ''_'' @ show_nat (Suc (requestCounter c))"
  shows "correlator_inv
           (c\<lparr>pendingRequests :=
                AList.update rid \<lparr>pending_request.timeout = nextTimer c\<rparr> (pendingRequests c),
              requestCounter := Suc (requestCounter c),
              timers := (timers c)(nextTimer c \<mapsto> \<lparr>callback = RequestTimeout rid act, delay = d\<rparr>),
              nextTimer := Suc (nextTimer c)\<rparr>)"
    (is "correlator_inv ?c'")
proof -
  let ?h = "nextTimer c"
  from inv have dd: "distinct (map fst (pendingRequests c))"
    and i4: "\<And>r. 0 < settlements c r \<Longrightarrow> issued c r"
    and i5: "\<And>r. settlements c r \<le> 1"
    and i6: "timers_bounded c"
    and i7: "distinct (subscribedChannels c)"
    by (simp_all add: correlator_inv_def)
  have fresh: "\<not> issued c rid" unfolding rid by (rule fresh_not_issued)
  have s0: "settlements c rid = 0"
    using i4 [of rid] fresh by auto
  have free: "timers c ?h = None"
    using i6 by (auto simp add: timers_bounded_def)
  then have rfree: "request_timer c ?h = None" by (simp add: request_timer_def)
  have rt: "request_timer ?c' h = (if h = ?h then Some rid else request_timer c h)" for h
    by (simp add: request_timer_def)
  have st: "settlements ?c' = settlements c"
    by (simp add: settlements_def)
  have is': "issued c r \<Longrightarrow> issued ?c' r" for r
    using issued_mono [of c r ?c'] by simp
  have new: "issued ?c' rid"
    unfolding issued_def rid by (intro exI [of _ now] exI [of _ "Suc (requestCounter c)"]) simp
  have other: "r \<noteq> rid" if "request_timer c h = Some r" for h r
    using inv_armed [OF inv that] fresh by auto
  have c1: "distinct (map fst (pendingRequests ?c'))"
    using dd by (simp add: distinct_update)
  have c2: "request_timer ?c' (pending_request.timeout q) = Some r"
    if "map_of (pendingRequests ?c') r = Some q" for r q
  proof (cases "r = rid")
    case True
    with that have "q = \<lparr>pending_request.timeout = ?h\<rparr>" by (simp add: update_conv')
    with True show ?thesis by (simp add: rt)
  next
    case False
    with that have old: "map_of (pendingRequests c) r = Some q" by (simp add: update_conv')
    have o: "request_timer c (pending_request.timeout q) = Some r"
      using inv old by (rule inv_timer)
    with rfree have "pending_request.timeout q \<noteq> ?h" by auto
    with o show ?thesis by (simp add: rt)
  qed
  have c3: "issued ?c' r \<and> settlements ?c' r = 0" if "request_timer ?c' h = Some r" for h r
  proof (cases "h = ?h")
    case True
    with that have "r = rid" by (simp add: rt)
    with new s0 show ?thesis by (simp add: st)
  next
    case False
    with that have old: "request_timer c h = Some r" by (simp add: rt)
    with inv_armed [OF inv old] is' show ?thesis by (simp add: st)
  qed
  have c3u: "h1 = h2" if "request_timer ?c' h1 = Some r" "request_timer ?c' h2 = Some r" for h1 h2 r
  proof (cases "r = rid")
    case True
    with that other have "h1 = ?h" "h2 = ?h"
      by (auto simp add: rt split: if_splits)
    then show ?thesis by simp
  next
    case False
    with that have "request_timer c h1 = Some r" "request_timer c h2 = Some r"
      by (simp_all add: rt split: if_splits)
    then show ?thesis by (rule inv_unique [OF inv])
  qed
  have c4: "issued ?c' r" if "0 < settlements ?c' r" for r
    using that i4 [of r] is' by (simp add: st)
  have c5: "settlements ?c' r \<le> 1" for r
    using i5 [of r] by (simp add: st)
  have c6: "timers_bounded ?c'"
    using i6 by (auto simp add: timers_bounded_def less_Suc_eq)
  have c7: "distinct (subscribedChannels ?c')"
    using i7 by simp
  have c2': "\<forall>r q. map_of (pendingRequests ?c') r = Some q \<longrightarrow>
               request_timer ?c' (pending_request.timeout q) = Some r"
    using c2 by blast
  have c3': "\<forall>h r. request_timer ?c' h = Some r \<longrightarrow> issued ?c' r \<and> settlements ?c' r = 0"
    using c3 by blast
  have c3u': "\<forall>h h' r. request_timer ?c' h = Some r \<and> request_timer ?c' h' = Some r \<longrightarrow> h = h'"
    using c3u by blast
  have c4': "\<forall>r. 0 < settlements ?c' r \<longrightarrow> issued ?c' r"
    using c4 by blast
  have c5': "\<forall>r. settlements ?c' r \<le> 1"
    using c5 by blast
  show ?thesis
    by (rule correlator_invI [OF c1 c2' c3' c3u' c4' c5' c6 c7])
qed

lemma snd_result:
  "snd (case p of (None, c4) \<Rightarrow> (Inr r, c4) | (Some x, c4) \<Rightarrow> (Inl x, c4)) = snd p"
  by (cases p) (simp split: option.splits)

lemma inv_sendAction:
  assumes inv: "correlator_inv c"
  shows "correlator_inv (snd (sendAction sv act pl tmo now stamp c))"
proof (cases "isConnected c")
  case False
  with inv show ?thesis by (simp add: sendAction_def)
next
  case True
  define rid where "rid = ''req_'' @ show_nat now @ ''_'' @ show_nat (Suc (requestCounter c))"
  define d where "d = (case tmo of Some t \<Rightarrow> t
                       | None \<Rightarrow> (case options.timeout (options c) of Some t \<Rightarrow> t | None \<Rightarrow> 30000))"
  define msg where "msg = \<lparr>action = act, payload = pl, reply_channel = ''reply_'' @ rid,
                            request_id = rid, timestamp = stamp\<rparr>"
  define c3 where "c3 = c\<lparr>requestCounter := Suc (requestCounter c),
              timers := (timers c)(nextTimer c \<mapsto> \<lparr>callback = RequestTimeout rid act, delay = d\<rparr>),
              nextTimer := Suc (nextTimer c),
              pendingRequests :=
                AList.update rid \<lparr>pending_request.timeout = nextTimer c\<rparr> (pendingRequests c)\<rparr>"
  have "correlator_inv c3"
    by (rule inv_cong [OF inv_register [OF inv rid_def, of act d]]) (simp_all add: c3_def)
  then have "correlator_inv (snd (sendToChannel sv msg c3))"
    using quiet_sendToChannel by (rule inv_quiet)
  moreover have "snd (sendAction sv act pl tmo now stamp c) = snd (sendToChannel sv msg c3)"
    using True
    by (simp add: sendAction_def generateRequestId_def setTimeout_def Let_def rid_def d_def msg_def
        c3_def snd_result)
  ultimately show ?thesis by simp
qed

lemma inv_subscribed:
  assumes "correlator_inv c" and "distinct xs"
  shows "correlator_inv (c\<lparr>subscribedChannels := xs\<rparr>)"
  using assms
  by (simp add: correlator_inv_def issued_def request_timer_def settlements_def timers_bounded_def)

lemma distinct_set_add: "distinct xs \<Longrightarrow> distinct (set_add x xs)"
  by (simp add: set_add_def)

lemma inv_subscribeToChannel:
  assumes inv: "correlator_inv c"
  shows "correlator_inv (snd (subscribeToChannel ch h c))"
proof (cases "isConnected c")
  case False
  with inv show ?thesis by (simp add: subscribeToChannel_def)
next
  case True
  let ?c1 = "c\<lparr>subscribedChannels := set_add ch (subscribedChannels c)\<rparr>"
  have "distinct (subscribedChannels c)" using inv by (simp add: correlator_inv_def)
  then have "correlator_inv ?c1"
    by (intro inv_subscribed [OF inv] distinct_set_add)
  then have "correlator_inv (snd (ws_send (SubscribeFrame ch) (on (''channel:'' @ ch) h ?c1)))"
    using quiet_trans [OF quiet_on quiet_ws_send] by (rule inv_quiet)
  with True show ?thesis by (simp add: subscribeToChannel_def)
qed

lemma inv_unsubscribeFromChannel:
  assumes inv: "correlator_inv c"
  shows "correlator_inv (snd (unsubscribeFromChannel ch c))"
proof -
  let ?c0 = "c\<lparr>subscribedChannels := removeAll ch (subscribedChannels c)\<rparr>"
  let ?c1 = "removeAllListeners (''channel:'' @ ch) ?c0"
  have "distinct (subscribedChannels c)" using inv by (simp add: correlator_inv_def)
  then have "correlator_inv ?c0"
    by (intro inv_subscribed [OF inv] distinct_removeAll)
  then have i1: "correlator_inv ?c1"
    using quiet_removeAllListeners by (rule inv_quiet)
  then have "correlator_inv (snd (ws_send (UnsubscribeFrame ch) ?c1))"
    using quiet_ws_send by (rule inv_quiet)
  with i1 show ?thesis by (simp add: unsubscribeFromChannel_def Let_def)
qed

lemma inv_step:
  assumes inv: "correlator_inv c"
  shows "correlator_inv (step e c)"
proof (cases e)
  case Connect
  then show ?thesis using inv_quiet [OF inv quiet_connect] by simp
next
  case Disconnect
  then show ?thesis using inv_disconnect [OF inv] by simp
next
  case (SendAction sv act pl tmo now stamp)
  then show ?thesis using inv_sendAction [OF inv] by simp
next
  case (SubscribeToChannel ch h)
  then show ?thesis using inv_subscribeToChannel [OF inv] by simp
next
  case (UnsubscribeFromChannel ch)
  then show ?thesis using inv_unsubscribeFromChannel [OF inv] by simp
next
  case (SendToChannel ch msg)
  then show ?thesis using inv_quiet [OF inv quiet_sendToChannel] by simp
next
  case (Broadcast ch d)
  then show ?thesis using inv_quiet [OF inv quiet_broadcast] by simp
next
  case (On ev h)
  then show ?thesis using inv_quiet [OF inv quiet_on] by simp
next
  case (WsOpen k)
  then show ?thesis
    using inv inv_quiet [OF inv quiet_trans [OF quiet_set_readyState quiet_on_open]] by simp
next
  case (WsMessage k d)
  then show ?thesis using inv inv_handleMessage [OF inv] by simp
next
  case (WsClose k code reason)
  have "timers_bounded (set_readyState k CLOSED c)"
    using quiet_set_readyState inv_bounded [OF inv] by (rule quiet_bounded)
  then have "quiet c (snd (on_close code reason (set_readyState k CLOSED c)))"
    using quiet_trans [OF quiet_set_readyState quiet_on_close] by simp
  with WsClose show ?thesis using inv inv_quiet [OF inv] by simp
next
  case (WsError k m)
  then show ?thesis
    using inv inv_quiet [OF inv quiet_on_error] by simp
next
  case (TimerExpires h)
  then show ?thesis using inv_fire [OF inv] by simp
next
  case Microtask
  then show ?thesis
    using inv_quiet [OF inv quiet_run_microtask [OF inv_bounded [OF inv]]] by simp
next
  case (Raises h b)
  then show ?thesis using inv_quiet [OF inv quiet_raises] by simp
qed

lemma inv_init: "correlator_inv (init opts)"
  by (simp add: correlator_inv_def init_def request_timer_def settlements_def settled_def
      timers_bounded_def)

lemma reachable_inv: "reachable c \<Longrightarrow> correlator_inv c"
  by (induction rule: reachable.induct) (simp_all add: inv_init inv_step)

section \<open>The desired-active set\<close>

lemma subs_emit: "subscribedChannels (emit ev a c) = subscribedChannels c"
  by (simp add: emit_def)

lemma subs_emit_error: "subscribedChannels (snd (emit_error e c)) = subscribedChannels c"
  by (simp add: emit_error_def)

lemma subs_ws_send: "subscribedChannels (snd (ws_send f c)) = subscribedChannels c"
  by (simp add: ws_send_def split: option.splits)

lemma subs_scheduleReconnect: "subscribedChannels (snd (scheduleReconnect c)) = subscribedChannels c"
  by (simp add: scheduleReconnect_def subs_emit_error setTimeout_def)

lemma subs_reconnect_failed: "subscribedChannels (reconnect_failed e c) = subscribedChannels c"
proof -
  obtain r1 c1 where e1: "emit_error e c = (r1, c1)" by (cases "emit_error e c")
  obtain r2 c2 where e2: "scheduleReconnect c1 = (r2, c2)" by (cases "scheduleReconnect c1")
  have "subscribedChannels c1 = subscribedChannels c"
    using subs_emit_error [of e c] e1 by simp
  moreover have "subscribedChannels c2 = subscribedChannels c1"
    using subs_scheduleReconnect [of c1] e2 by simp
  ultimately show ?thesis
    by (simp add: reconnect_failed_def e1 e2 split: option.splits)
qed

lemma subs_reject_connect: "subscribedChannels (reject_connect k e c) = subscribedChannels c"
  by (simp add: reject_connect_def Let_def split: option.splits)

lemma subs_run_microtask: "subscribedChannels (run_microtask c) = subscribedChannels c"
  by (simp add: run_microtask_def subs_reconnect_failed split: list.splits)

lemma subs_resolve_connect: "subscribedChannels (resolve_connect k c) = subscribedChannels c"
  by (simp add: resolve_connect_def split: option.splits)

lemma subs_connect: "subscribedChannels (snd (connect who c)) = subscribedChannels c"
  by (simp add: connect_def split: option.splits)

lemma subs_reject_all: "subscribedChannels (reject_all ps c) = subscribedChannels c"
  by (simp add: reject_all_eq)

lemma subs_disconnect: "subscribedChannels (disconnect c) = subscribedChannels c"
  by (simp add: disconnect_def Let_def subs_reject_all ws_close_def split: option.splits)

lemma subs_handleResponse: "subscribedChannels (snd (handleResponse m c)) = subscribedChannels c"
  by (simp add: handleResponse_def reject_pending_def resolve_pending_def clearTimeout_def Let_def
      split: option.splits json.splits)

lemma subs_emit_channel: "subscribedChannels (snd (emit_channel ch d c)) = subscribedChannels c"
  by (simp add: emit_channel_def subs_emit split: option.splits)

lemma subs_try_block: "subscribedChannels (snd (try_block m c)) = subscribedChannels c"
  by (simp add: try_block_def handleChannelMessage_def subs_emit_channel subs_emit
      subs_handleResponse)

lemma subs_caught: "subscribedChannels (snd (caught r)) = subscribedChannels (snd r)"
  by (cases r) (simp add: caught_def parse_failure_def subs_emit_error split: option.splits)

lemma subs_handleMessage: "subscribedChannels (snd (handleMessage d c)) = subscribedChannels c"
  by (simp add: handleMessage_def parse_failure_def subs_emit_error subs_caught subs_try_block
      split: inbound.splits)

lemma subs_resubscribe_loop: "subscribedChannels (snd (resubscribe_loop chs c)) = subscribedChannels c"
proof (induction chs arbitrary: c)
  case Nil
  then show ?case by simp
next
  case (Cons ch chs)
  obtain r c1 where s: "ws_send (SubscribeFrame ch) c = (r, c1)"
    by (cases "ws_send (SubscribeFrame ch) c")
  have "subscribedChannels c1 = subscribedChannels c"
    using subs_ws_send [of "SubscribeFrame ch" c] s by simp
  then show ?case using Cons.IH [of c1] s by (cases r) simp_all
qed

lemma subs_on_open: "subscribedChannels (snd (on_open k c)) = subscribedChannels c"
proof -
  let ?c1 = "emit ''connect'' NoArgument (c\<lparr>isConnecting := False, reconnectAttempts := 0\<rparr>)"
  obtain r c2 where rs: "resubscribeToChannels ?c1 = (r, c2)"
    by (cases "resubscribeToChannels ?c1")
  have "subscribedChannels c2 = subscribedChannels ?c1"
    using subs_resubscribe_loop [of "subscribedChannels ?c1" ?c1] rs
    by (simp add: resubscribeToChannels_def)
  then show ?thesis
    by (simp add: on_open_def Let_def rs subs_emit subs_resolve_connect split: option.splits)
qed

lemma subs_on_close: "subscribedChannels (snd (on_close code reason c)) = subscribedChannels c"
  by (simp add: on_close_def Let_def subs_scheduleReconnect subs_emit)

lemma subs_on_error: "subscribedChannels (snd (on_error k e c)) = subscribedChannels c"
proof -
  obtain r c1 where e1: "emit_error e (c\<lparr>isConnecting := False\<rparr>) = (r, c1)"
    by (cases "emit_error e (c\<lparr>isConnecting := False\<rparr>)")
  have "subscribedChannels c1 = subscribedChannels c"
    using subs_emit_error [of e "c\<lparr>isConnecting := False\<rparr>"] e1 by simp
  then show ?thesis
    by (simp add: on_error_def e1 subs_reject_connect split: option.splits)
qed

lemma subs_fire: "subscribedChannels (fire h c) = subscribedChannels c"
proof -
  have "subscribedChannels (reconnect_timeout c') = subscribedChannels c'" for c'
  proof -
    obtain r c1 where e1: "connect ReconnectTimer c' = (r, c1)"
      by (cases "connect ReconnectTimer c'")
    have "subscribedChannels c1 = subscribedChannels c'"
      using subs_connect [of ReconnectTimer c'] e1 by simp
    then show ?thesis
      by (simp add: reconnect_timeout_def e1 split: connect_result.splits)
  qed
  then show ?thesis
    by (simp add: fire_def request_timeout_def Let_def split: option.splits timer_callback.splits)
qed

lemma subs_sendAction: "subscribedChannels (snd (sendAction sv act pl tmo now stamp c)) = subscribedChannels c"
  by (simp add: sendAction_def generateRequestId_def setTimeout_def Let_def snd_result
      sendToChannel_def subs_ws_send)

lemma subs_step:
  "subscribedChannels (step e c) =
     (case e of
        SubscribeToChannel ch h \<Rightarrow>
          if isConnected c then set_add ch (subscribedChannels c) else subscribedChannels c
      | UnsubscribeFromChannel ch \<Rightarrow> removeAll ch (subscribedChannels c)
      | _ \<Rightarrow> subscribedChannels c)"
proof (cases e)
  case (SubscribeToChannel ch h)
  then show ?thesis by (simp add: subscribeToChannel_def subs_ws_send on_def)
next
  case (UnsubscribeFromChannel ch)
  then show ?thesis
    by (simp add: unsubscribeFromChannel_def Let_def subs_ws_send removeAllListeners_def)
next
  case (WsOpen k)
  then show ?thesis by (simp add: subs_on_open set_readyState_def split: option.splits)
next
  case (WsClose k code reason)
  then show ?thesis by (simp add: subs_on_close set_readyState_def split: option.splits)
qed (simp_all add: subs_connect subs_disconnect subs_sendAction sendToChannel_def broadcast_def
      subs_ws_send on_def subs_handleMessage subs_on_error subs_fire subs_run_microtask)

lemma set_subs_step: "set (subscribedChannels (step e c)) = desired e c (set (subscribedChannels c))"
  unfolding subs_step by (cases e) (auto simp add: set_add_def)

lemma set_subs_run:
  "set (subscribedChannels (run es c)) = desired_active es c (set (subscribedChannels c))"
  by (induction es arbitrary: c) (simp_all add: set_subs_step)

lemma reachable_run: "reachable c \<Longrightarrow> reachable (run es c)"
  by (induction es arbitrary: c) (simp_all add: reachable.next_step)

section \<open>The example sessions, evaluated\<close>

lemmas operation_defs =
  init_def on_def removeAllListeners_def emit_def emit_error_def setTimeout_def clearTimeout_def
  set_add_def isConnected_def ws_send_def ws_close_def connect_def scheduleReconnect_def
  reconnect_failed_def resolve_connect_def reject_connect_def resolve_pending_def
  reject_pending_def disconnect_def generateRequestId_def sendToChannel_def sendAction_def
  subscribeToChannel_def unsubscribeFromChannel_def broadcast_def handleResponse_def
  handleChannelMessage_def pending_has_def parse_failure_def handleMessage_def try_block_def
  caught_def emit_channel_def error_text_def to_string_def
  resubscribeToChannels_def on_open_def on_close_def on_error_def request_timeout_def
  reconnect_timeout_def fire_def set_readyState_def ready_def run_microtask_def

lemma session_open_eq:
  "session_open =
     \<lparr>ws = Some 0, reconnectAttempts = 0, isConnecting = False, isReconnecting = False,
      pendingRequests = [], requestCounter = 0, subscribedChannels = [],
      options = example_options,
      listeners = (\<lambda>ev. [])(''error'' := [1]),
      sockets = [0 \<mapsto> \<lparr>readyState = OPEN, connectPromise = Fulfilled, awaitedBy = Application\<rparr>],
      nextSocket = 1, timers = Map.empty, nextTimer = 0, microtasks = [], raises = (\<lambda>h. False), log = []\<rparr>"
  by (simp add: session_open_def operation_defs example_options_def)

lemma show_nat_1: "show_nat (Suc 0) = ''1''" and show_nat_17: "show_nat 17 = ''17''"
  by (simp_all add: show_nat.simps [of 17] show_nat.simps [of 1] show_nat.simps [of "Suc 0"] digit_char_def)

lemma session_pending_eq:
  "session_pending =
     \<lparr>ws = Some 0, reconnectAttempts = 0, isConnecting = False, isReconnecting = False,
      pendingRequests = [(''req_17_1'', \<lparr>pending_request.timeout = 0\<rparr>)],
      requestCounter = 1, subscribedChannels = [''alerts''],
      options = example_options,
      listeners = (\<lambda>ev. [])(''error'' := [1], ''channel:alerts'' := [3]),
      sockets = [0 \<mapsto> \<lparr>readyState = OPEN, connectPromise = Fulfilled, awaitedBy = Application\<rparr>],
      nextSocket = 1,
      timers = [0 \<mapsto> \<lparr>callback = RequestTimeout ''req_17_1'' ''ping'', delay = 500\<rparr>],
      nextTimer = 1, microtasks = [], raises = (\<lambda>h. False),
      log = [Sent 0 (SubscribeFrame ''alerts''),
             Sent 0 (PublishFrame ''test-service''
                 \<lparr>action = ''ping'', payload = JObj [], reply_channel = ''reply_req_17_1'',
                  request_id = ''req_17_1'', timestamp = 18\<rparr>)]\<rparr>"
  by (simp add: session_pending_def session_open_eq operation_defs show_nat_1 show_nat_17)

lemma session_connecting_eq:
  "session_connecting =
     \<lparr>ws = Some 0, reconnectAttempts = 0, isConnecting = True, isReconnecting = False,
      pendingRequests = [], requestCounter = 0, subscribedChannels = [],
      options = example_options,
      listeners = (\<lambda>ev. [])(''error'' := [1]),
      sockets = [0 \<mapsto> \<lparr>readyState = CONNECTING, connectPromise = Unsettled, awaitedBy = Application\<rparr>],
      nextSocket = 1, timers = Map.empty, nextTimer = 0, microtasks = [], raises = (\<lambda>h. False), log = []\<rparr>"
  by (simp add: session_connecting_def operation_defs example_options_def)

lemma session_bare_eq:
  "session_bare =
     \<lparr>ws = Some 0, reconnectAttempts = 0, isConnecting = False, isReconnecting = False,
      pendingRequests = [], requestCounter = 0, subscribedChannels = [],
      options = example_options,
      listeners = (\<lambda>ev. []),
      sockets = [0 \<mapsto> \<lparr>readyState = OPEN, connectPromise = Fulfilled, awaitedBy = Application\<rparr>],
      nextSocket = 1, timers = Map.empty, nextTimer = 0, microtasks = [], raises = (\<lambda>h. False), log = []\<rparr>"
  by (simp add: session_bare_def operation_defs example_options_def)


lemma session_proxied_eq:
  "session_proxied =
     \<lparr>ws = Some 0, reconnectAttempts = 0, isConnecting = False, isReconnecting = False,
      pendingRequests = [], requestCounter = 0, subscribedChannels = [],
      options = example_options,
      listeners = (\<lambda>ev. [])(''connect'' := [10], ''disconnect'' := [11], ''error'' := [12],
                                 ''message'' := [13]),
      sockets = [0 \<mapsto> \<lparr>readyState = OPEN, connectPromise = Fulfilled, awaitedBy = Application\<rparr>],
      nextSocket = 1, timers = Map.empty, nextTimer = 0, microtasks = [],
      raises = (\<lambda>h. False)(12 := True), log = [Called 10 ''connect'' NoArgument]\<rparr>"
  by (simp add: session_proxied_def operation_defs example_options_def)

lemma session_orphaned_eq:
  "session_orphaned =
     session_pending\<lparr>pendingRequests := [],
       log := log session_pending @
         [Called 1 ''error''
            (ErrorArgument (DaebusError
               ''Failed to parse message: TypeError: Cannot convert object to primitive value''))]\<rparr>"
  by (simp add: session_orphaned_def unconvertible_response_def session_pending_eq operation_defs
      conversion_error_def error_string_def)

lemma session_pending_lost_eq:
  "session_pending_lost =
     session_pending\<lparr>isReconnecting := True, reconnectAttempts := 1,
       sockets := [0 \<mapsto> \<lparr>readyState = CLOSED, connectPromise = Fulfilled, awaitedBy = Application\<rparr>],
       timers := (timers session_pending)(1 \<mapsto> \<lparr>callback = Reconnect, delay = 100\<rparr>),
       nextTimer := 2\<rparr>"
  by (simp add: session_pending_lost_def session_pending_eq operation_defs example_options_def)

lemma session_pending_sent:
  "sendAction ''test-service'' ''ping'' (JObj []) (Some 500) 17 18 session_subscribed =
     (Inr ''req_17_1'', session_pending)"
  by (simp add: session_subscribed_def session_pending_def session_open_eq operation_defs
      show_nat_1 show_nat_17)
section \<open>What each operation does to the pending map and the settlements\<close>

lemma quiet_keeps:
  "quiet c c' \<Longrightarrow>
   pendingRequests c' = pendingRequests c \<and> settlements c' = settlements c \<and>
   request_timer c' = request_timer c"
  by (simp add: quiet_def)

lemma quiet_counter: "quiet c c' \<Longrightarrow> requestCounter c' = requestCounter c"
  by (simp add: quiet_def)

lemma quiet_timers: "quiet c c' \<Longrightarrow> request_timer c h \<noteq> None \<Longrightarrow> timers c' h = timers c h"
  by (simp add: quiet_def)

lemma quiet_after_subscribed:
  "quiet (c\<lparr>subscribedChannels := xs\<rparr>) c' \<Longrightarrow>
   pendingRequests c' = pendingRequests c \<and> settlements c' = settlements c \<and>
   request_timer c' = request_timer c \<and>
   (\<forall>h. request_timer c h \<noteq> None \<longrightarrow> timers c' h = timers c h) \<and>
   requestCounter c' = requestCounter c"
  by (simp add: quiet_def fun_eq_iff request_timer_def settlements_def)

lemma keeps_subscribeToChannel:
  "pendingRequests (snd (subscribeToChannel ch h c)) = pendingRequests c \<and>
   settlements (snd (subscribeToChannel ch h c)) = settlements c \<and>
   request_timer (snd (subscribeToChannel ch h c)) = request_timer c \<and>
   (\<forall>h'. request_timer c h' \<noteq> None \<longrightarrow>
      timers (snd (subscribeToChannel ch h c)) h' = timers c h') \<and>
   requestCounter (snd (subscribeToChannel ch h c)) = requestCounter c"
proof (cases "isConnected c")
  case False
  then show ?thesis by (simp add: subscribeToChannel_def)
next
  case True
  have "quiet (c\<lparr>subscribedChannels := set_add ch (subscribedChannels c)\<rparr>)
          (snd (subscribeToChannel ch h c))"
    using True quiet_trans [OF quiet_on quiet_ws_send] by (simp add: subscribeToChannel_def)
  then show ?thesis by (rule quiet_after_subscribed)
qed

lemma keeps_unsubscribeFromChannel:
  "pendingRequests (snd (unsubscribeFromChannel ch c)) = pendingRequests c \<and>
   settlements (snd (unsubscribeFromChannel ch c)) = settlements c \<and>
   request_timer (snd (unsubscribeFromChannel ch c)) = request_timer c \<and>
   (\<forall>h'. request_timer c h' \<noteq> None \<longrightarrow>
      timers (snd (unsubscribeFromChannel ch c)) h' = timers c h') \<and>
   requestCounter (snd (unsubscribeFromChannel ch c)) = requestCounter c"
proof -
  have "quiet (c\<lparr>subscribedChannels := removeAll ch (subscribedChannels c)\<rparr>)
          (snd (unsubscribeFromChannel ch c))"
    using quiet_removeAllListeners quiet_trans [OF quiet_removeAllListeners quiet_ws_send]
    by (simp add: unsubscribeFromChannel_def Let_def)
  then show ?thesis by (rule quiet_after_subscribed)
qed

lemma sendAction_state:
  assumes "isConnected c"
  shows "pendingRequests (snd (sendAction sv act pl tmo now stamp c)) =
           AList.update (''req_'' @ show_nat now @ ''_'' @ show_nat (Suc (requestCounter c)))
             \<lparr>pending_request.timeout = nextTimer c\<rparr> (pendingRequests c) \<and>
         settlements (snd (sendAction sv act pl tmo now stamp c)) = settlements c"
proof -
  define rid where "rid = ''req_'' @ show_nat now @ ''_'' @ show_nat (Suc (requestCounter c))"
  define d where "d = (case tmo of Some t \<Rightarrow> t
                       | None \<Rightarrow> (case options.timeout (options c) of Some t \<Rightarrow> t | None \<Rightarrow> 30000))"
  define msg where "msg = \<lparr>action = act, payload = pl, reply_channel = ''reply_'' @ rid,
                            request_id = rid, timestamp = stamp\<rparr>"
  define c3 where "c3 = c\<lparr>requestCounter := Suc (requestCounter c),
              timers := (timers c)(nextTimer c \<mapsto> \<lparr>callback = RequestTimeout rid act, delay = d\<rparr>),
              nextTimer := Suc (nextTimer c),
              pendingRequests :=
                AList.update rid \<lparr>pending_request.timeout = nextTimer c\<rparr> (pendingRequests c)\<rparr>"
  have eq: "snd (sendAction sv act pl tmo now stamp c) = snd (sendToChannel sv msg c3)"
    using assms
    by (simp add: sendAction_def generateRequestId_def setTimeout_def Let_def rid_def d_def msg_def
        c3_def snd_result)
  have "quiet c3 (snd (sendToChannel sv msg c3))" by (rule quiet_sendToChannel)
  then have "pendingRequests (snd (sendToChannel sv msg c3)) = pendingRequests c3"
    and "settlements (snd (sendToChannel sv msg c3)) = settlements c3"
    by (simp_all add: quiet_def)
  then show ?thesis
    unfolding eq by (simp add: c3_def rid_def settlements_def)
qed

lemma try_block_cases:
  "quiet c (snd (try_block m c)) \<or>
   (\<exists>rid p. get_prop m ''request_id'' = Some (JStr rid) \<and> response_frame m \<and>
      map_of (pendingRequests c) rid = Some p \<and> try_block m c = handleResponse m c)"
proof -
  have r: "quiet c (snd (handleResponse m c)) \<or>
           (\<exists>rid p. get_prop m ''request_id'' = Some (JStr rid) \<and> map_of (pendingRequests c) rid = Some p)"
  proof (cases "\<exists>rid p. get_prop m ''request_id'' = Some (JStr rid) \<and> map_of (pendingRequests c) rid = Some p")
    case False
    then have "handleResponse m c = (None, c)"
      by (intro handleResponse_nomatch) (metis not_Some_eq)
    then show ?thesis by (simp add: quiet_refl)
  qed simp
  then show ?thesis
    by (auto simp add: try_block_def response_frame_def quiet_refl quiet_emit quiet_emit_channel
        quiet_handleChannelMessage)
qed

lemma handleMessage_cases:
  "quiet c (snd (handleMessage d c)) \<or>
   (\<exists>m rid p. d = Parsed m \<and> get_prop m ''request_id'' = Some (JStr rid) \<and>
      response_frame m \<and> map_of (pendingRequests c) rid = Some p \<and>
      quiet (snd (handleResponse m c)) (snd (handleMessage d c)))"
proof (cases d)
  case (Unparsable e)
  then show ?thesis by (simp add: handleMessage_def quiet_parse_failure)
next
  case (Parsed m)
  have q: "quiet (snd (try_block m c)) (snd (handleMessage d c))"
    unfolding Parsed by (simp add: handleMessage_def quiet_caught)
  from try_block_cases [of c m] show ?thesis
  proof
    assume "quiet c (snd (try_block m c))"
    then have "quiet c (snd (handleMessage d c))" using q by (rule quiet_trans)
    then show ?thesis by (rule disjI1)
  next
    assume "\<exists>rid p. get_prop m ''request_id'' = Some (JStr rid) \<and> response_frame m \<and>
      map_of (pendingRequests c) rid = Some p \<and> try_block m c = handleResponse m c"
    then obtain rid p where "get_prop m ''request_id'' = Some (JStr rid)" "response_frame m"
      "map_of (pendingRequests c) rid = Some p" "try_block m c = handleResponse m c"
      by blast
    with q Parsed show ?thesis by auto
  qed
qed

lemma settlements_settle:
  assumes "settles rid x" "\<And>r. r \<noteq> rid \<Longrightarrow> \<not> settles r x" "log c' = log c @ [x]"
  shows "settlements c' = (settlements c)(rid := Suc (settlements c rid))"
  using assms by (auto simp add: fun_eq_iff settlements_def settled_append settled_single)

text \<open>
  A response whose id is pending removes the entry. It settles the request and clears
  its timer, unless the conversion of its error raises: then nothing is settled and the
  timer stays armed.
\<close>

lemma handleResponse_effect:
  assumes "get_prop m ''request_id'' = Some (JStr rid)"
    and "map_of (pendingRequests c) rid = Some p"
  shows "pendingRequests (snd (handleResponse m c)) = AList.delete rid (pendingRequests c) \<and>
         settlements (snd (handleResponse m c)) =
           (if settlement rid m = None then settlements c
            else (settlements c)(rid := Suc (settlements c rid))) \<and>
         timers (snd (handleResponse m c)) =
           (if settlement rid m = None then timers c
            else (timers c)(pending_request.timeout p := None)) \<and>
         requestCounter (snd (handleResponse m c)) = requestCounter c"
proof (cases "settlement rid m")
  case None
  then show ?thesis
    by (simp add: handleResponse_match [OF assms] settlements_def)
next
  case (Some x)
  let ?c' = "c\<lparr>pendingRequests := AList.delete rid (pendingRequests c),
                 timers := (timers c)(pending_request.timeout p := None),
                 log := log c @ [x]\<rparr>"
  have "settlements ?c' = (settlements c)(rid := Suc (settlements c rid))"
    by (rule settlements_settle [OF settlement_settles [OF Some]]) simp_all
  then show ?thesis
    by (simp add: handleResponse_match [OF assms] Some)
qed

lemma fire_cases:
  "quiet c (fire h c) \<or>
   (\<exists>rid act d. timers c h = Some \<lparr>callback = RequestTimeout rid act, delay = d\<rparr> \<and>
      request_timer c h = Some rid \<and>
      pendingRequests (fire h c) = AList.delete rid (pendingRequests c) \<and>
      timers (fire h c) = (timers c)(h := None) \<and>
      log (fire h c) =
        log c @ [RejectedWith rid (DaebusTimeoutError (''Action '' @ act @ '' timed out''))])"
proof (cases "timers c h")
  case None
  then show ?thesis by (simp add: fire_def quiet_refl)
next
  case (Some t)
  show ?thesis
  proof (cases "callback t")
    case (RequestTimeout rid act)
    with Some have rt: "request_timer c h = Some rid" by (simp add: request_timer_def)
    have "t = \<lparr>callback = RequestTimeout rid act, delay = delay t\<rparr>"
      using RequestTimeout by simp
    with Some have "timers c h = Some \<lparr>callback = RequestTimeout rid act, delay = delay t\<rparr>"
      by simp
    moreover have "pendingRequests (fire h c) = AList.delete rid (pendingRequests c)"
      "timers (fire h c) = (timers c)(h := None)"
      "log (fire h c) =
        log c @ [RejectedWith rid (DaebusTimeoutError (''Action '' @ act @ '' timed out''))]"
      by (simp_all add: fire_def Some RequestTimeout request_timeout_def)
    ultimately show ?thesis using rt by blast
  next
    case Reconnect
    let ?c1 = "c\<lparr>timers := (timers c)(h := None)\<rparr>"
    have q1: "quiet c ?c1"
      using Some Reconnect by (simp add: quiet_simps)
    have "quiet ?c1 (reconnect_timeout ?c1)" by (rule quiet_reconnect_timeout)
    with q1 have "quiet c (reconnect_timeout ?c1)" by (rule quiet_trans)
    then show ?thesis by (simp add: fire_def Some Reconnect)
  qed
qed

text \<open>The expiry of a request's timer settles the request, pending or not.\<close>

lemma fire_request_timer:
  assumes inv: "correlator_inv c" and rt: "request_timer c h = Some rid"
  shows "pendingRequests (fire h c) = AList.delete rid (pendingRequests c) \<and>
         timers (fire h c) = (timers c)(h := None) \<and>
         settlements (fire h c) = (settlements c)(rid := 1) \<and>
         (\<forall>h'. request_timer (fire h c) h' \<noteq> Some rid) \<and>
         requestCounter (fire h c) = requestCounter c"
proof -
  from rt obtain t act where t: "timers c h = Some t" "callback t = RequestTimeout rid act"
    by (auto simp add: request_timer_def split: option.splits timer_callback.splits)
  have pr: "pendingRequests (fire h c) = AList.delete rid (pendingRequests c)"
    and tm: "timers (fire h c) = (timers c)(h := None)"
    and lg: "log (fire h c) =
        log c @ [RejectedWith rid (DaebusTimeoutError (''Action '' @ act @ '' timed out''))]"
    and rc: "requestCounter (fire h c) = requestCounter c"
    by (simp_all add: fire_def t request_timeout_def)
  have "settlements (fire h c) = (settlements c)(rid := Suc (settlements c rid))"
    by (rule settlements_settle [OF _ _ lg]) simp_all
  then have st: "settlements (fire h c) = (settlements c)(rid := 1)"
    using inv_armed [OF inv rt] by simp
  have gone: "request_timer (fire h c) h' \<noteq> Some rid" for h'
  proof
    assume a: "request_timer (fire h c) h' = Some rid"
    then have "h' \<noteq> h" and "request_timer c h' = Some rid"
      by (auto simp add: request_timer_def tm split: if_splits)
    with inv_unique [OF inv rt] show False by blast
  qed
  show ?thesis using pr tm st gone rc by blast
qed

lemma disconnect_effect:
  assumes inv: "correlator_inv c"
  shows "pendingRequests (disconnect c) = [] \<and>
         (\<forall>r. settlements (disconnect c) r = settlements c r + (if pending c r then 1 else 0)) \<and>
         (\<forall>r h. pending c r \<longrightarrow> request_timer (disconnect c) h \<noteq> Some r) \<and>
         (\<forall>h t. timers (disconnect c) h = Some t \<longrightarrow> timers c h = Some t) \<and>
         requestCounter (disconnect c) = requestCounter c"
proof -
  define c1 where "c1 = (case ws c of None \<Rightarrow> c
                         | Some k \<Rightarrow> (ws_close k 1000 ''Client disconnect'' c)\<lparr>ws := None\<rparr>)"
  have q: "quiet c c1"
    unfolding c1_def
    by (auto split: option.splits intro: quiet_refl quiet_trans [OF quiet_ws_close quiet_flags(4)])
  then have eqs: "pendingRequests c1 = pendingRequests c" "settlements c1 = settlements c"
    "request_timer c1 = request_timer c"
    by (simp_all add: quiet_def)
  have tm1: "timers c1 = timers c"
    unfolding c1_def by (simp add: ws_close_def split: option.splits)
  have inv1: "correlator_inv c1" using inv q by (rule inv_quiet)
  then have d: "distinct (map fst (pendingRequests c1))" by (simp add: correlator_inv_def)
  have dis: "disconnect c = (reject_all (pendingRequests c1) c1)\<lparr>pendingRequests := []\<rparr>"
    by (simp add: disconnect_def c1_def Let_def)
  have mem: "pending c r \<longleftrightarrow> r \<in> fst ` set (pendingRequests c1)" for r
    by (simp add: pending_def eqs map_of_eq_None_iff)
  have a: "settlements (disconnect c) r = settlements c r + (if pending c r then 1 else 0)" for r
    unfolding dis mem
    using eqs(2)
    by (simp add: reject_all_eq settlements_def settled_append settled_rejections [OF d])
  have b: "request_timer (disconnect c) h \<noteq> Some r" if "pending c r" for r h
  proof
    assume "request_timer (disconnect c) h = Some r"
    then have nh: "h \<notin> (pending_request.timeout \<circ> snd) ` set (pendingRequests c1)"
      and old: "request_timer c1 h = Some r"
      unfolding dis by (simp_all add: reject_all_eq request_timer_def split: if_splits)
    have "r \<notin> fst ` set (pendingRequests c1)" using inv1 old nh by (rule spared_timer)
    with that show False by (simp add: mem)
  qed
  have t: "timers c h = Some t" if "timers (disconnect c) h = Some t" for h t
    using that unfolding dis by (simp add: reject_all_eq tm1 split: if_splits)
  have rc: "requestCounter (disconnect c) = requestCounter c"
    unfolding dis using quiet_counter [OF q] by (simp add: reject_all_eq)
  show ?thesis using a b t rc by (simp add: dis)
qed
lemma sendAction_connected:
  assumes "isConnected c" and "ws c = Some k"
  shows "sendAction sv act pl tmo now stamp c =
    (Inr (fst (generateRequestId now c)),
     c\<lparr>requestCounter := Suc (requestCounter c),
       timers := (timers c)(nextTimer c \<mapsto>
         \<lparr>callback = RequestTimeout (fst (generateRequestId now c)) act,
          delay = (case tmo of Some t \<Rightarrow> t
                   | None \<Rightarrow> (case options.timeout (options c) of Some t \<Rightarrow> t | None \<Rightarrow> 30000))\<rparr>),
       nextTimer := Suc (nextTimer c),
       pendingRequests :=
         AList.update (fst (generateRequestId now c)) \<lparr>pending_request.timeout = nextTimer c\<rparr>
           (pendingRequests c),
       log := log c @
         [Sent k (PublishFrame sv
            \<lparr>action = act, payload = pl,
             reply_channel = ''reply_'' @ fst (generateRequestId now c),
             request_id = fst (generateRequestId now c), timestamp = stamp\<rparr>)]\<rparr>)"
  using assms
  by (simp add: sendAction_def generateRequestId_def setTimeout_def Let_def sendToChannel_def
      ws_send_def isConnected_def)

lemma fresh_id:
  assumes "reachable c"
  shows "\<not> pending c (fst (generateRequestId now c)) \<and>
         settlements c (fst (generateRequestId now c)) = 0"
proof -
  let ?rid = "''req_'' @ show_nat now @ ''_'' @ show_nat (Suc (requestCounter c))"
  have inv: "correlator_inv c" using assms by (rule reachable_inv)
  have fresh: "\<not> issued c ?rid" by (rule fresh_not_issued)
  have "\<not> pending c ?rid"
  proof
    assume "pending c ?rid"
    then obtain p where "map_of (pendingRequests c) ?rid = Some p"
      by (auto simp add: pending_def)
    with inv have "issued c ?rid" using inv_pending by blast
    with fresh show False by simp
  qed
  moreover have "settlements c ?rid = 0"
  proof (rule ccontr)
    assume "settlements c ?rid \<noteq> 0"
    then have "0 < settlements c ?rid" by simp
    with inv have "issued c ?rid" by (simp add: correlator_inv_def)
    with fresh show False by simp
  qed
  ultimately show ?thesis by (simp add: generateRequestId_def)
qed

lemma reachable_session_open: "reachable session_open"
  unfolding session_open_def by (intro reachable_run reachable.start)

lemma reachable_session_pending: "reachable session_pending"
  unfolding session_pending_def by (intro reachable_run reachable_session_open)


lemma reachable_session_pending_lost: "reachable session_pending_lost"
  unfolding session_pending_lost_def by (intro reachable_run reachable_session_pending)

lemma reachable_session_orphaned: "reachable session_orphaned"
  unfolding session_orphaned_def by (intro reachable_run reachable_session_pending)

lemma reachable_session_subscribed: "reachable session_subscribed"
  unfolding session_subscribed_def by (intro reachable_run reachable_session_open)
section \<open>What a step of a run does to a pending request\<close>

lemma quiet_step:
  assumes inv: "correlator_inv c"
    and e: "e = Connect \<or> (\<exists>ch msg. e = SendToChannel ch msg) \<or> (\<exists>ch d. e = Broadcast ch d) \<or>
            (\<exists>ev h. e = On ev h) \<or> (\<exists>k. e = WsOpen k) \<or> (\<exists>k code reason. e = WsClose k code reason) \<or>
            (\<exists>k m. e = WsError k m) \<or> e = Microtask \<or> (\<exists>h b. e = Raises h b)"
  shows "quiet c (step e c)"
proof -
  have b: "timers_bounded c" using inv by (rule inv_bounded)
  have op: "quiet c (snd (on_open k (set_readyState k OPEN c)))" for k
    by (rule quiet_trans [OF quiet_set_readyState quiet_on_open])
  have cl: "quiet c (snd (on_close code reason (set_readyState k CLOSED c)))" for k code reason
  proof -
    have "timers_bounded (set_readyState k CLOSED c)"
      using quiet_set_readyState b by (rule quiet_bounded)
    then show ?thesis
      using quiet_trans [OF quiet_set_readyState quiet_on_close] by simp
  qed
  from e show ?thesis
    using op cl quiet_on_error quiet_run_microtask [OF b]
    by (auto simp add: quiet_connect quiet_sendToChannel quiet_broadcast quiet_on quiet_refl
        quiet_raises)
qed

text \<open>What a step does to the pending map and to the count of settlements.\<close>

lemma step_cases:
  assumes inv: "correlator_inv c"
  shows "(pendingRequests (step e c) = pendingRequests c \<and> settlements (step e c) = settlements c) \<or>
         ((\<forall>r. pending c r \<longrightarrow> pending (step e c) r) \<and> settlements (step e c) = settlements c) \<or>
         (\<exists>rid. destroys e c rid \<and>
            pendingRequests (step e c) = AList.delete rid (pendingRequests c) \<and>
            (settlements (step e c) = (settlements c)(rid := 1) \<or>
             settlements (step e c) = settlements c)) \<or>
         (e = Disconnect \<and> pendingRequests (step e c) = [] \<and>
            (\<forall>r. settlements (step e c) r = settlements c r + (if pending c r then 1 else 0)))"
proof -
  have keep: "pendingRequests (step e c) = pendingRequests c \<and> settlements (step e c) = settlements c"
    if "e = Connect \<or> (\<exists>ch msg. e = SendToChannel ch msg) \<or> (\<exists>ch d. e = Broadcast ch d) \<or>
        (\<exists>ev h. e = On ev h) \<or> (\<exists>k. e = WsOpen k) \<or> (\<exists>k code reason. e = WsClose k code reason) \<or>
        (\<exists>k m. e = WsError k m) \<or> e = Microtask \<or> (\<exists>h b. e = Raises h b)"
  proof -
    have "quiet c (step e c)" using inv that by (rule quiet_step)
    then show ?thesis by (simp add: quiet_def)
  qed
  show ?thesis
  proof (cases e)
    case Connect
    then have "pendingRequests (step e c) = pendingRequests c \<and> settlements (step e c) = settlements c"
      by (intro keep) blast
    then show ?thesis by (rule disjI1)
  next
    case Disconnect
    then show ?thesis using disconnect_effect [OF inv] by simp
  next
    case (SendAction sv act pl tmo now stamp)
    show ?thesis
    proof (cases "isConnected c")
      case True
      from sendAction_state [OF True, of sv act pl tmo now stamp] SendAction
      have "(\<forall>r. pending c r \<longrightarrow> pending (step e c) r) \<and> settlements (step e c) = settlements c"
        by (simp add: pending_def update_conv')
      then show ?thesis by blast
    next
      case False
      with SendAction show ?thesis by (simp add: sendAction_def)
    qed
  next
    case (SubscribeToChannel ch h)
    then show ?thesis using keeps_subscribeToChannel [of ch h c] by simp
  next
    case (UnsubscribeFromChannel ch)
    then show ?thesis using keeps_unsubscribeFromChannel [of ch c] by simp
  next
    case (SendToChannel ch msg)
    then have "pendingRequests (step e c) = pendingRequests c \<and> settlements (step e c) = settlements c"
      by (intro keep) blast
    then show ?thesis by (rule disjI1)
  next
    case (Broadcast ch d)
    then have "pendingRequests (step e c) = pendingRequests c \<and> settlements (step e c) = settlements c"
      by (intro keep) blast
    then show ?thesis by (rule disjI1)
  next
    case (On ev h)
    then have "pendingRequests (step e c) = pendingRequests c \<and> settlements (step e c) = settlements c"
      by (intro keep) blast
    then show ?thesis by (rule disjI1)
  next
    case (WsOpen k)
    then have "pendingRequests (step e c) = pendingRequests c \<and> settlements (step e c) = settlements c"
      by (intro keep) blast
    then show ?thesis by (rule disjI1)
  next
    case (WsClose k code reason)
    then have "pendingRequests (step e c) = pendingRequests c \<and> settlements (step e c) = settlements c"
      by (intro keep) blast
    then show ?thesis by (rule disjI1)
  next
    case (WsError k m)
    then have "pendingRequests (step e c) = pendingRequests c \<and> settlements (step e c) = settlements c"
      by (intro keep) blast
    then show ?thesis by (rule disjI1)
  next
    case Microtask
    then have "pendingRequests (step e c) = pendingRequests c \<and> settlements (step e c) = settlements c"
      by (intro keep) blast
    then show ?thesis by (rule disjI1)
  next
    case (Raises h b)
    then have "pendingRequests (step e c) = pendingRequests c \<and> settlements (step e c) = settlements c"
      by (intro keep) blast
    then show ?thesis by (rule disjI1)
  next
    case (WsMessage k d)
    show ?thesis
    proof (cases "ready c k = None")
      case True
      with WsMessage show ?thesis by simp
    next
      case False
      with WsMessage have st: "step e c = snd (handleMessage d c)"
        by (simp del: not_None_eq)
      from handleMessage_cases [of c d] show ?thesis
      proof
        assume "quiet c (snd (handleMessage d c))"
        then show ?thesis unfolding st using quiet_keeps by blast
      next
        assume "\<exists>m rid p. d = Parsed m \<and> get_prop m ''request_id'' = Some (JStr rid) \<and>
          response_frame m \<and> map_of (pendingRequests c) rid = Some p \<and>
          quiet (snd (handleResponse m c)) (snd (handleMessage d c))"
        then obtain m rid p where d: "d = Parsed m"
          and m: "get_prop m ''request_id'' = Some (JStr rid)"
          and rf: "response_frame m"
          and p: "map_of (pendingRequests c) rid = Some p"
          and q: "quiet (snd (handleResponse m c)) (snd (handleMessage d c))"
          by blast
        have zero: "settlements c rid = 0" using inv_pending [OF inv p] by simp
        have "destroys e c rid"
          using WsMessage d m rf by simp
        moreover have "pendingRequests (step e c) = AList.delete rid (pendingRequests c)"
          unfolding st using quiet_keeps [OF q] handleResponse_effect [OF m p] by simp
        moreover have "settlements (step e c) = (settlements c)(rid := 1) \<or>
            settlements (step e c) = settlements c"
          unfolding st using quiet_keeps [OF q] handleResponse_effect [OF m p] zero
          by (cases "settlement rid m") simp_all
        ultimately show ?thesis by blast
      qed
    qed
  next
    case (TimerExpires h)
    from fire_cases [of c h] show ?thesis
    proof
      assume "quiet c (fire h c)"
      then show ?thesis using TimerExpires quiet_keeps by simp
    next
      assume "\<exists>rid act d. timers c h = Some \<lparr>callback = RequestTimeout rid act, delay = d\<rparr> \<and>
        request_timer c h = Some rid \<and>
        pendingRequests (fire h c) = AList.delete rid (pendingRequests c) \<and>
        timers (fire h c) = (timers c)(h := None) \<and>
        log (fire h c) =
          log c @ [RejectedWith rid (DaebusTimeoutError (''Action '' @ act @ '' timed out''))]"
      then obtain rid where rt: "request_timer c h = Some rid" by blast
      have "destroys e c rid"
        using TimerExpires rt by simp
      with fire_request_timer [OF inv rt] TimerExpires show ?thesis by auto
    qed
  qed
qed

lemma destroyed_by:
  assumes inv: "correlator_inv c"
    and before: "pending c rid" and after: "\<not> pending (step e c) rid"
  shows "destroys e c rid"
proof -
  from step_cases [OF inv, of e]
  have "pendingRequests (step e c) = pendingRequests c \<or>
        (\<forall>r. pending c r \<longrightarrow> pending (step e c) r) \<or>
        (\<exists>r. destroys e c r \<and> pendingRequests (step e c) = AList.delete r (pendingRequests c)) \<or>
        e = Disconnect"
    by blast
  then show ?thesis
  proof (elim disjE exE conjE)
    assume "pendingRequests (step e c) = pendingRequests c"
    with before after show ?thesis by (simp add: pending_def)
  next
    assume "\<forall>r. pending c r \<longrightarrow> pending (step e c) r"
    with before after show ?thesis by blast
  next
    fix r
    assume r: "destroys e c r"
      and pr: "pendingRequests (step e c) = AList.delete r (pendingRequests c)"
    have "r = rid"
    proof (rule ccontr)
      assume "r \<noteq> rid"
      then have "pending (step e c) rid = pending c rid"
        by (simp add: pending_def pr delete_conv')
      with before after show False by simp
    qed
    with r show ?thesis by simp
  next
    assume "e = Disconnect"
    then show ?thesis by simp
  qed
qed

lemma settlements_step_mono:
  assumes inv: "correlator_inv c"
  shows "settlements c rid \<le> settlements (step e c) rid"
proof -
  have one: "settlements c r \<le> 1" for r
    using inv by (simp add: correlator_inv_def)
  from step_cases [OF inv, of e] show ?thesis
    using one [of rid] by (elim disjE exE conjE) (auto split: if_splits)
qed

lemma settlements_run_mono:
  "reachable c \<Longrightarrow> settlements c rid \<le> settlements (run es c) rid"
proof (induction es arbitrary: c)
  case Nil
  then show ?case by simp
next
  case (Cons e es)
  have "settlements c rid \<le> settlements (step e c) rid"
    using reachable_inv [OF Cons.prems] by (rule settlements_step_mono)
  also have "\<dots> \<le> settlements (run es (step e c)) rid"
    using Cons.prems by (intro Cons.IH reachable.next_step)
  finally show ?case by simp
qed

text \<open>
  What a step does to the armed timers of requests issued before it: it may clear one,
  and otherwise leaves it as it is. The request counter never decreases.
\<close>

lemma step_frame:
  assumes inv: "correlator_inv c"
  shows "requestCounter c \<le> requestCounter (step e c) \<and>
         (\<forall>h r. request_timer (step e c) h = Some r \<and> issued c r \<longrightarrow>
            timers (step e c) h = timers c h)"
proof -
  have quiet_case: ?thesis if q: "quiet c (step e c)"
  proof -
    have "timers (step e c) h = timers c h" if "request_timer (step e c) h = Some r" for h r
    proof -
      from that q have "request_timer c h \<noteq> None" by (simp add: quiet_def)
      with q show ?thesis by (rule quiet_timers)
    qed
    then show ?thesis using quiet_counter [OF q] by simp
  qed
  have shrink_case: ?thesis
    if "requestCounter (step e c) = requestCounter c"
      and "\<And>h t. timers (step e c) h = Some t \<Longrightarrow> timers c h = Some t"
  proof -
    have "timers (step e c) h = timers c h" if "request_timer (step e c) h = Some r" for h r
    proof -
      from that obtain t where "timers (step e c) h = Some t"
        by (auto simp add: request_timer_def split: option.splits)
      then show ?thesis using \<open>\<And>h t. timers (step e c) h = Some t \<Longrightarrow> timers c h = Some t\<close> by simp
    qed
    then show ?thesis using that(1) by simp
  qed
  have keep_case: ?thesis
    if "request_timer (step e c) = request_timer c"
      and "\<forall>h. request_timer c h \<noteq> None \<longrightarrow> timers (step e c) h = timers c h"
      and "requestCounter (step e c) = requestCounter c"
    using that by simp
  show ?thesis
  proof (cases e)
    case Connect
    then show ?thesis by (intro quiet_case quiet_step [OF inv]) blast
  next
    case Disconnect
    show ?thesis
    proof (rule shrink_case)
      show "requestCounter (step e c) = requestCounter c"
        using Disconnect disconnect_effect [OF inv] by simp
      show "timers c h = Some t" if "timers (step e c) h = Some t" for h t
        using that Disconnect disconnect_effect [OF inv] by simp
    qed
  next
    case (SendAction sv act pl tmo now stamp)
    show ?thesis
    proof (cases "isConnected c")
      case False
      with SendAction show ?thesis by (simp add: sendAction_def)
    next
      case True
      then obtain k where k: "ws c = Some k"
        by (auto simp add: isConnected_def split: option.splits)
      let ?rid = "fst (generateRequestId now c)"
      have fresh: "\<not> issued c ?rid"
        using fresh_not_issued [of c now] by (simp add: generateRequestId_def)
      have free: "timers c (nextTimer c) = None"
        using inv_bounded [OF inv] by (auto simp add: timers_bounded_def)
      have "timers (step e c) h = timers c h"
        if a: "request_timer (step e c) h = Some r" and i: "issued c r" for h r
      proof (cases "h = nextTimer c")
        case True
        with a have "r = ?rid"
          unfolding SendAction step.simps sendAction_connected [OF \<open>isConnected c\<close> k]
          by (simp add: request_timer_def)
        with i fresh show ?thesis by simp
      next
        case False
        then show ?thesis
          unfolding SendAction step.simps sendAction_connected [OF \<open>isConnected c\<close> k]
          by simp
      qed
      moreover have "requestCounter c \<le> requestCounter (step e c)"
        unfolding SendAction step.simps sendAction_connected [OF True k] by simp
      ultimately show ?thesis by blast
    qed
  next
    case (SubscribeToChannel ch h)
    then show ?thesis
      using keeps_subscribeToChannel [of ch h c] by (intro keep_case) simp_all
  next
    case (UnsubscribeFromChannel ch)
    then show ?thesis
      using keeps_unsubscribeFromChannel [of ch c] by (intro keep_case) simp_all
  next
    case (SendToChannel ch msg)
    then show ?thesis by (intro quiet_case quiet_step [OF inv]) blast
  next
    case (Broadcast ch d)
    then show ?thesis by (intro quiet_case quiet_step [OF inv]) blast
  next
    case (On ev h)
    then show ?thesis by (intro quiet_case quiet_step [OF inv]) blast
  next
    case (WsOpen k)
    then show ?thesis by (intro quiet_case quiet_step [OF inv]) blast
  next
    case (WsClose k code reason)
    then show ?thesis by (intro quiet_case quiet_step [OF inv]) blast
  next
    case (WsError k m)
    then show ?thesis by (intro quiet_case quiet_step [OF inv]) blast
  next
    case Microtask
    then show ?thesis by (intro quiet_case quiet_step [OF inv]) blast
  next
    case (Raises h b)
    then show ?thesis by (intro quiet_case quiet_step [OF inv]) blast
  next
    case (TimerExpires h)
    from fire_cases [of c h] show ?thesis
    proof
      assume "quiet c (fire h c)"
      then show ?thesis using TimerExpires by (intro quiet_case) simp
    next
      assume "\<exists>rid act d. timers c h = Some \<lparr>callback = RequestTimeout rid act, delay = d\<rparr> \<and>
        request_timer c h = Some rid \<and>
        pendingRequests (fire h c) = AList.delete rid (pendingRequests c) \<and>
        timers (fire h c) = (timers c)(h := None) \<and>
        log (fire h c) =
          log c @ [RejectedWith rid (DaebusTimeoutError (''Action '' @ act @ '' timed out''))]"
      then obtain rid where rt: "request_timer c h = Some rid" by blast
      note f = fire_request_timer [OF inv rt]
      show ?thesis
      proof (rule shrink_case)
        show "requestCounter (step e c) = requestCounter c"
          using TimerExpires f by simp
        show "timers c h' = Some t" if "timers (step e c) h' = Some t" for h' t
          using that TimerExpires f by (simp split: if_splits)
      qed
    qed
  next
    case (WsMessage k d)
    show ?thesis
    proof (cases "ready c k = None")
      case True
      with WsMessage show ?thesis by simp
    next
      case False
      with WsMessage have st: "step e c = snd (handleMessage d c)"
        by (simp del: not_None_eq)
      from handleMessage_cases [of c d] show ?thesis
      proof
        assume "quiet c (snd (handleMessage d c))"
        then show ?thesis by (intro quiet_case) (simp add: st)
      next
        assume "\<exists>m rid p. d = Parsed m \<and> get_prop m ''request_id'' = Some (JStr rid) \<and>
          response_frame m \<and> map_of (pendingRequests c) rid = Some p \<and>
          quiet (snd (handleResponse m c)) (snd (handleMessage d c))"
        then obtain m rid p where m: "get_prop m ''request_id'' = Some (JStr rid)"
          and p: "map_of (pendingRequests c) rid = Some p"
          and q: "quiet (snd (handleResponse m c)) (snd (handleMessage d c))"
          by blast
        note r = handleResponse_effect [OF m p]
        let ?c1 = "snd (handleResponse m c)"
        have sub: "timers c h = Some t" if "timers ?c1 h = Some t" for h t
          using that r by (cases "settlement rid m") (simp_all split: if_splits)
        have "timers (step e c) h = timers c h" if a: "request_timer (step e c) h = Some r'" for h r'
        proof -
          from a q have n: "request_timer ?c1 h \<noteq> None" by (simp add: st quiet_def)
          with q have "timers (step e c) h = timers ?c1 h" unfolding st by (rule quiet_timers)
          moreover from n obtain t where "timers ?c1 h = Some t"
            by (auto simp add: request_timer_def split: option.splits)
          ultimately show ?thesis using sub by simp
        qed
        moreover have "requestCounter (step e c) = requestCounter c"
          unfolding st using quiet_counter [OF q] r by simp
        ultimately show ?thesis by simp
      qed
    qed
  qed
qed

lemma issued_step: "correlator_inv c \<Longrightarrow> issued c r \<Longrightarrow> issued (step e c) r"
  using step_frame [of c e] issued_mono by blast

text \<open>The timer of an issued request that is armed at the end of a run was armed, and the same, all along.\<close>

lemma armed_back:
  assumes "reachable c" and "issued c r" and "request_timer (run es c) h = Some r"
  shows "timers (run es c) h = timers c h"
  using assms
proof (induction es arbitrary: c)
  case Nil
  then show ?case by simp
next
  case (Cons e es)
  have inv: "correlator_inv c" using Cons.prems(1) by (rule reachable_inv)
  have r1: "reachable (step e c)" using Cons.prems(1) by (rule reachable.next_step)
  have i1: "issued (step e c) r" using inv Cons.prems(2) by (rule issued_step)
  have end_eq: "timers (run es (step e c)) h = timers (step e c) h"
    using Cons.prems(3) by (intro Cons.IH [OF r1 i1]) simp
  have "request_timer (step e c) h = Some r"
    using Cons.prems(3) end_eq by (simp add: request_timer_def)
  then have "timers (step e c) h = timers c h"
    using step_frame [OF inv, of e] Cons.prems(2) by blast
  with end_eq show ?case by simp
qed

text \<open>
  While its timer stays armed and no frame carries its id, a pending request stays
  pending.
\<close>

lemma pending_kept:
  assumes inv: "correlator_inv c" and p: "pending c rid" and nc: "\<not> carries e rid"
    and armed: "request_timer (step e c) h = Some rid"
  shows "pending (step e c) rid"
proof (rule ccontr)
  assume "\<not> pending (step e c) rid"
  with inv p have d: "destroys e c rid" by (rule destroyed_by)
  show False
  proof (cases e)
    case (TimerExpires h')
    with d have "request_timer c h' = Some rid" by simp
    from fire_request_timer [OF inv this] armed TimerExpires show False by simp
  next
    case Disconnect
    with disconnect_effect [OF inv] p armed show False by simp
  next
    case (WsMessage k x)
    with d nc show False by (cases x) simp_all
  qed (use d in simp_all)
qed

lemma pending_run:
  assumes "reachable c" and "pending c rid" and "\<forall>e \<in> set es. \<not> carries e rid"
    and "request_timer (run es c) h = Some rid"
  shows "pending (run es c) rid"
  using assms
proof (induction es arbitrary: c)
  case Nil
  then show ?case by simp
next
  case (Cons e es)
  have inv: "correlator_inv c" using Cons.prems(1) by (rule reachable_inv)
  have iss: "issued c rid"
    using inv Cons.prems(2) inv_pending by (auto simp add: pending_def)
  have r1: "reachable (step e c)" using Cons.prems(1) by (rule reachable.next_step)
  have i1: "issued (step e c) rid" using inv iss by (rule issued_step)
  have "timers (run es (step e c)) h = timers (step e c) h"
    using Cons.prems(4) by (intro armed_back [OF r1 i1]) simp
  then have a1: "request_timer (step e c) h = Some rid"
    using Cons.prems(4) by (simp add: request_timer_def)
  have "pending (step e c) rid"
    using inv Cons.prems(2) _ a1 by (rule pending_kept) (use Cons.prems(3) in simp)
  then show ?case
    using Cons.prems(3,4) by (simp add: Cons.IH [OF r1])
qed

text \<open>A frame of type \<^verbatim>\<open>response\<close> whose id is pending, arriving on a transport handle.\<close>

lemma response_step:
  assumes "ready c k \<noteq> None"
    and t: "get_prop m ''type'' = Some (JStr ''response'')"
    and m: "get_prop m ''request_id'' = Some (JStr rid)"
    and p: "map_of (pendingRequests c) rid = Some p"
  shows "pendingRequests (step (WsMessage k (Parsed m)) c) = AList.delete rid (pendingRequests c) \<and>
         settlements (step (WsMessage k (Parsed m)) c) =
           (if settlement rid m = None then settlements c
            else (settlements c)(rid := Suc (settlements c rid))) \<and>
         request_timer (step (WsMessage k (Parsed m)) c) =
           (if settlement rid m = None then request_timer c
            else (request_timer c)(pending_request.timeout p := None))"
proof -
  have st: "step (WsMessage k (Parsed m)) c = snd (caught (handleResponse m c))"
    using assms(1) t by (auto simp add: handleMessage_def try_block_def)
  have q: "quiet (snd (handleResponse m c)) (snd (caught (handleResponse m c)))"
    by (rule quiet_caught)
  note r = handleResponse_effect [OF m p]
  have "request_timer (snd (handleResponse m c)) =
      (if settlement rid m = None then request_timer c
       else (request_timer c)(pending_request.timeout p := None))"
    using r by (auto simp add: fun_eq_iff request_timer_def)
  then show ?thesis
    unfolding st using quiet_keeps [OF q] r by simp
qed
section \<open>Opening while the reconnecting flag is set\<close>

lemma resubscribe_loop_connected:
  assumes "isConnected c" and "ws c = Some k"
  shows "resubscribe_loop chs c =
           (None, c\<lparr>log := log c @ map (\<lambda>ch. Sent k (SubscribeFrame ch)) chs\<rparr>)"
  using assms
proof (induction chs arbitrary: c)
  case Nil
  then show ?case by simp
next
  case (Cons ch chs)
  let ?c1 = "c\<lparr>log := log c @ [Sent k (SubscribeFrame ch)]\<rparr>"
  have s: "ws_send (SubscribeFrame ch) c = (None, ?c1)"
    using Cons.prems by (simp add: ws_send_def)
  have "isConnected ?c1" "ws ?c1 = Some k"
    using Cons.prems by (simp_all add: isConnected_def)
  then have "resubscribe_loop chs ?c1 =
      (None, ?c1\<lparr>log := log ?c1 @ map (\<lambda>ch. Sent k (SubscribeFrame ch)) chs\<rparr>)"
    by (rule Cons.IH)
  then show ?case by (simp add: s)
qed

lemma open_while_reconnecting:
  assumes "isReconnecting c" and "ws c = Some k" and "ready c k = Some CONNECTING"
  shows "log (step (WsOpen k) c) =
           log c @ map (\<lambda>h. Called h ''connect'' NoArgument) (listeners c ''connect'') @
             map (\<lambda>ch. Sent k (SubscribeFrame ch)) (subscribedChannels c) \<and>
         \<not> isReconnecting (step (WsOpen k) c) \<and> isConnected (step (WsOpen k) c) \<and>
         fst (on_open k (set_readyState k OPEN c)) = None"
proof -
  from assms(3) obtain sk where sk: "sockets c k = Some sk" "readyState sk = CONNECTING"
    by (auto simp add: ready_def)
  let ?c0 = "set_readyState k OPEN c"
  let ?c1 = "emit ''connect'' NoArgument (?c0\<lparr>isConnecting := False, reconnectAttempts := 0\<rparr>)"
  have c1: "isConnected ?c1" "ws ?c1 = Some k" "isReconnecting ?c1"
    using assms(1,2) sk by (simp_all add: isConnected_def emit_def set_readyState_def)
  have r: "resubscribeToChannels ?c1 =
      (None, ?c1\<lparr>log := log ?c1 @ map (\<lambda>ch. Sent k (SubscribeFrame ch)) (subscribedChannels ?c1)\<rparr>)"
    unfolding resubscribeToChannels_def by (rule resubscribe_loop_connected [OF c1(1,2)])
  have o: "on_open k ?c0 =
      (None, resolve_connect k
         (?c1\<lparr>log := log ?c1 @ map (\<lambda>ch. Sent k (SubscribeFrame ch)) (subscribedChannels ?c1),
               isReconnecting := False\<rparr>))"
    using c1(3) by (simp add: on_open_def Let_def r)
  have st: "step (WsOpen k) c = snd (on_open k ?c0)"
    using assms(3) by simp
  show ?thesis
    unfolding st o using sk assms(2)
    by (simp add: resolve_connect_def emit_def set_readyState_def isConnected_def)
qed

lemma count_list_map_inj:
  "inj f \<Longrightarrow> distinct xs \<Longrightarrow> count_list (map f xs) (f x) = (if x \<in> set xs then 1 else 0)"
  by (induction xs) (auto simp add: inj_def)

lemma count_list_append: "count_list (xs @ ys) x = count_list xs x + count_list ys x"
  by (induction xs) simp_all

lemma count_list_Called: "count_list (map (\<lambda>h. Called h ev a) hs) (Sent k f) = 0"
  by (induction hs) simp_all

lemma session_reconnecting_eq:
  "session_reconnecting =
     \<lparr>ws = Some 1, reconnectAttempts = 1, isConnecting = True, isReconnecting = True,
      pendingRequests = [], requestCounter = 0, subscribedChannels = [''alerts''],
      options = example_options,
      listeners = (\<lambda>ev. [])(''error'' := [1], ''channel:alerts'' := [3]),
      sockets = [0 \<mapsto> \<lparr>readyState = CLOSED, connectPromise = Fulfilled, awaitedBy = Application\<rparr>,
                 1 \<mapsto> \<lparr>readyState = CONNECTING, connectPromise = Unsettled, awaitedBy = ReconnectTimer\<rparr>],
      nextSocket = 2, timers = Map.empty, nextTimer = 1, microtasks = [], raises = (\<lambda>h. False),
      log = [Sent 0 (SubscribeFrame ''alerts'')]\<rparr>"
  by (simp add: session_reconnecting_def reconnect_events_def operation_defs example_options_def)

section \<open>What disconnect does\<close>

lemma ws_close_fields:
  "timers (ws_close k code reason c) = timers c"
  "pendingRequests (ws_close k code reason c) = pendingRequests c"
  "log (ws_close k code reason c) = log c @ [CloseCall k code reason]"
  "isConnecting (ws_close k code reason c) = isConnecting c"
  "isReconnecting (ws_close k code reason c) = isReconnecting c"
  "reconnectAttempts (ws_close k code reason c) = reconnectAttempts c"
  "nextSocket (ws_close k code reason c) = nextSocket c"
  "options (ws_close k code reason c) = options c"
  by (simp_all add: ws_close_def)

lemma disconnect_fields:
  "ws (disconnect c) = None"
  "pendingRequests (disconnect c) = []"
  "log (disconnect c) =
     log c @ (case ws c of None \<Rightarrow> [] | Some k \<Rightarrow> [CloseCall k 1000 ''Client disconnect'']) @
       map connection_closed (pendingRequests c)"
  "timers (disconnect c) =
     (\<lambda>h. if h \<in> (pending_request.timeout \<circ> snd) ` set (pendingRequests c) then None else timers c h)"
  "isConnecting (disconnect c) = isConnecting c"
  "isReconnecting (disconnect c) = isReconnecting c"
  "reconnectAttempts (disconnect c) = reconnectAttempts c"
  "nextSocket (disconnect c) = nextSocket c"
  "options (disconnect c) = options c"
  by (simp_all add: disconnect_def Let_def reject_all_eq ws_close_fields split: option.splits
      cong: if_cong)

lemma disconnect_idem: "disconnect (disconnect c) = disconnect c"
proof -
  let ?c' = "disconnect c"
  have "disconnect ?c' = ?c'\<lparr>pendingRequests := []\<rparr>"
    by (simp add: disconnect_def [of ?c'] disconnect_fields)
  also have "\<dots> = ?c'"
    using disconnect_fields(2) [of c] by (cases ?c') simp
  finally show ?thesis .
qed

lemma disconnect_keeps_reconnect_timer:
  assumes inv: "correlator_inv c"
  shows "reconnect_timer (disconnect c) h = reconnect_timer c h"
proof (cases "h \<in> (pending_request.timeout \<circ> snd) ` set (pendingRequests c)")
  case False
  then show ?thesis by (simp add: reconnect_timer_def disconnect_fields)
next
  case True
  then obtain r p where rp: "(r, p) \<in> set (pendingRequests c)" and h: "h = pending_request.timeout p"
    by auto
  from inv have "distinct (map fst (pendingRequests c))" by (simp add: correlator_inv_def)
  with rp have "map_of (pendingRequests c) r = Some p" by simp
  with inv h have "request_timer c h = Some r" using inv_timer by blast
  then have "\<not> reconnect_timer c h"
    by (auto simp add: request_timer_def reconnect_timer_def split: option.splits timer_callback.splits)
  with True show ?thesis by (simp add: reconnect_timer_def disconnect_fields)
qed

lemma reconnect_fires_after_disconnect:
  assumes "reconnect_timer (disconnect c) h" and "isReconnecting c" and "\<not> isConnecting c"
    and "url_error (options c) = None"
  shows "ws (fire h (disconnect c)) = Some (nextSocket c) \<and>
         ready (fire h (disconnect c)) (nextSocket c) = Some CONNECTING"
proof -
  let ?c' = "disconnect c"
  from assms(1) obtain t where t: "timers ?c' h = Some t" "callback t = Reconnect"
    by (auto simp add: reconnect_timer_def split: option.splits)
  let ?c1 = "?c'\<lparr>timers := (timers ?c')(h := None)\<rparr>"
  have f: "fire h ?c' = reconnect_timeout ?c1"
    using t by (simp add: fire_def)
  have "\<not> isConnected ?c1" by (simp add: isConnected_def disconnect_fields)
  then show ?thesis
    unfolding f using assms(2-4)
    by (simp add: reconnect_timeout_def connect_def disconnect_fields ready_def)
qed

lemma session_lost_eq:
  "session_lost =
     \<lparr>ws = Some 0, reconnectAttempts = 1, isConnecting = False, isReconnecting = True,
      pendingRequests = [], requestCounter = 0, subscribedChannels = [''alerts''],
      options = example_options,
      listeners = (\<lambda>ev. [])(''error'' := [1], ''channel:alerts'' := [3]),
      sockets = [0 \<mapsto> \<lparr>readyState = CLOSED, connectPromise = Fulfilled, awaitedBy = Application\<rparr>],
      nextSocket = 1, timers = [0 \<mapsto> \<lparr>callback = Reconnect, delay = 100\<rparr>], nextTimer = 1,
      microtasks = [], raises = (\<lambda>h. False),
      log = [Sent 0 (SubscribeFrame ''alerts'')]\<rparr>"
  by (simp add: session_lost_def operation_defs example_options_def)

lemma reachable_session_lost: "reachable session_lost"
  unfolding session_lost_def by (intro reachable_run reachable.start)

lemma session_exhausting_fields:
  "pendingRequests session_exhausting = [(''req_17_1'', \<lparr>pending_request.timeout = 0\<rparr>)]"
  "timers session_exhausting 0 = Some \<lparr>callback = RequestTimeout ''req_17_1'' ''ping'', delay = 1000\<rparr>"
  "reconnectAttempts session_exhausting = 2"
  "maxReconnectAttempts (options session_exhausting) = Some 2"
  "microtasks session_exhausting =
     [DaebusConnectionError ''WebSocket connection failed: ECONNREFUSED'']"
  "listeners session_exhausting ''error'' = [1]"
  "raises session_exhausting = (\<lambda>h. False)"
  "log session_exhausting =
     [Sent 0 (PublishFrame ''test-service''
          \<lparr>action = ''ping'', payload = JObj [], reply_channel = ''reply_req_17_1'',
           request_id = ''req_17_1'', timestamp = 18\<rparr>),
      Called 1 ''error'' (ErrorArgument (TransportError ''ECONNREFUSED'')),
      Called 1 ''error''
        (ErrorArgument (DaebusConnectionError ''WebSocket connection failed: ECONNREFUSED'')),
      Called 1 ''error'' (ErrorArgument (TransportError ''ECONNREFUSED''))]"
  by (simp_all add: session_exhausting_def exhausting_events_def operation_defs example_options_def
      show_nat_1 show_nat_17)

lemma session_exhausted_fields:
  "pendingRequests session_exhausted = pendingRequests session_exhausting"
  "timers session_exhausted = timers session_exhausting"
  "reconnectAttempts session_exhausted = 2"
  "maxReconnectAttempts (options session_exhausted) = Some 2"
  "log session_exhausted =
     log session_exhausting @
     [Called 1 ''error''
        (ErrorArgument (DaebusConnectionError ''WebSocket connection failed: ECONNREFUSED'')),
      Called 1 ''error''
        (ErrorArgument (DaebusConnectionError ''Max reconnection attempts exceeded''))]"
  by (simp_all add: session_exhausted_def run_microtask_def reconnect_failed_def emit_error_def
      scheduleReconnect_def session_exhausting_fields)

lemma reachable_session_exhausting: "reachable session_exhausting"
  unfolding session_exhausting_def by (intro reachable_run reachable.start)

lemma reachable_session_exhausted: "reachable session_exhausted"
  unfolding session_exhausted_def by (intro reachable_run reachable_session_exhausting)

section \<open>Every request is settled at most once\<close>

text \<open>
  C1. In every state a run reaches, the ids of the pending requests are pairwise
  distinct, the id \<^verbatim>\<open>generateRequestId\<close> would issue next is neither pending nor was it
  ever settled, no id has been settled more than once, and a pending id has not been
  settled at all and has its timer armed. A step that takes an id out of the pending map
  is one of three: a response carrying the id, the expiry of the id's timer, or
  \<^verbatim>\<open>disconnect()\<close>; and each of the three does take it out: a frame of type
  \<^verbatim>\<open>response\<close> carrying the id that arrives on a transport handle, the expiry of the
  timer, and \<^verbatim>\<open>disconnect()\<close>. The expiry and \<^verbatim>\<open>disconnect()\<close> settle the request, and so
  does the response, unless its error does not convert to a string: then the request is
  left unsettled, to be settled by its timer.
\<close>

theorem single_resolution:
  assumes "reachable c"
  shows "distinct (map fst (pendingRequests c)) \<and>
         \<not> pending c (fst (generateRequestId now c)) \<and>
         settlements c (fst (generateRequestId now c)) = 0 \<and>
         (\<forall>rid. settlements c rid \<le> 1) \<and>
         (\<forall>rid. pending c rid \<longrightarrow>
            settlements c rid = 0 \<and> (\<exists>h. request_timer c h = Some rid)) \<and>
         (\<forall>rid e. pending c rid \<and> \<not> pending (step e c) rid \<longrightarrow> destroys e c rid) \<and>
         (\<forall>rid k m. pending c rid \<and> ready c k \<noteq> None \<and>
            get_prop m ''type'' = Some (JStr ''response'') \<and>
            get_prop m ''request_id'' = Some (JStr rid) \<longrightarrow>
              \<not> pending (step (WsMessage k (Parsed m)) c) rid \<and>
              settlements (step (WsMessage k (Parsed m)) c) rid =
                (if settlement rid m = None then 0 else 1)) \<and>
         (\<forall>rid h. request_timer c h = Some rid \<longrightarrow>
              \<not> pending (step (TimerExpires h) c) rid \<and>
              settlements (step (TimerExpires h) c) rid = 1) \<and>
         (\<forall>rid. pending c rid \<longrightarrow>
              \<not> pending (step Disconnect c) rid \<and> settlements (step Disconnect c) rid = 1)"
proof -
  have inv: "correlator_inv c" using assms by (rule reachable_inv)
  have a: "distinct (map fst (pendingRequests c))" and b: "\<forall>rid. settlements c rid \<le> 1"
    using inv by (simp_all add: correlator_inv_def)
  have zero: "settlements c rid = 0" if "pending c rid" for rid
    using inv that inv_pending by (auto simp add: pending_def)
  have c: "\<forall>rid. pending c rid \<longrightarrow> settlements c rid = 0 \<and> (\<exists>h. request_timer c h = Some rid)"
  proof (intro allI impI conjI)
    fix rid assume p: "pending c rid"
    then show "settlements c rid = 0" by (rule zero)
    from p obtain q where "map_of (pendingRequests c) rid = Some q"
      by (auto simp add: pending_def)
    with inv have "request_timer c (pending_request.timeout q) = Some rid" by (rule inv_timer)
    then show "\<exists>h. request_timer c h = Some rid" by blast
  qed
  have d: "\<forall>rid e. pending c rid \<and> \<not> pending (step e c) rid \<longrightarrow> destroys e c rid"
    using destroyed_by [OF inv] by blast
  have r: "\<forall>rid k m. pending c rid \<and> ready c k \<noteq> None \<and>
            get_prop m ''type'' = Some (JStr ''response'') \<and>
            get_prop m ''request_id'' = Some (JStr rid) \<longrightarrow>
              \<not> pending (step (WsMessage k (Parsed m)) c) rid \<and>
              settlements (step (WsMessage k (Parsed m)) c) rid =
                (if settlement rid m = None then 0 else 1)"
  proof (intro allI impI, elim conjE)
    fix rid k m
    assume p: "pending c rid" and k: "ready c k \<noteq> None"
      and t: "get_prop m ''type'' = Some (JStr ''response'')"
      and m: "get_prop m ''request_id'' = Some (JStr rid)"
    from p obtain q where q: "map_of (pendingRequests c) rid = Some q"
      by (auto simp add: pending_def)
    note s = response_step [OF k t m q]
    have "\<not> pending (step (WsMessage k (Parsed m)) c) rid"
      using s by (simp add: pending_def delete_conv')
    moreover have "settlements (step (WsMessage k (Parsed m)) c) rid =
        (if settlement rid m = None then 0 else 1)"
      using s zero [OF p] by simp
    ultimately show "\<not> pending (step (WsMessage k (Parsed m)) c) rid \<and>
        settlements (step (WsMessage k (Parsed m)) c) rid =
          (if settlement rid m = None then 0 else 1)"
      by (rule conjI)
  qed
  have t: "\<forall>rid h. request_timer c h = Some rid \<longrightarrow>
              \<not> pending (step (TimerExpires h) c) rid \<and>
              settlements (step (TimerExpires h) c) rid = 1"
  proof (intro allI impI)
    fix rid h assume "request_timer c h = Some rid"
    from fire_request_timer [OF inv this]
    show "\<not> pending (step (TimerExpires h) c) rid \<and>
        settlements (step (TimerExpires h) c) rid = 1"
      by (simp add: pending_def delete_conv')
  qed
  have e: "\<forall>rid. pending c rid \<longrightarrow>
              \<not> pending (step Disconnect c) rid \<and> settlements (step Disconnect c) rid = 1"
    using disconnect_effect [OF inv] zero by (simp add: pending_def)
  show ?thesis
    using a b c d r t e fresh_id [OF assms, of now] by (intro conjI) simp_all
qed

theorem single_resolution_witness:
  "reachable session_pending \<and>
   pending session_pending ''req_17_1'' \<and>
   settlements session_pending ''req_17_1'' = 0 \<and>
   \<not> pending session_pending (fst (generateRequestId 17 session_pending)) \<and>
   \<not> pending (step (WsMessage 0 (Parsed success_response)) session_pending) ''req_17_1'' \<and>
   settlements (step (WsMessage 0 (Parsed success_response)) session_pending) ''req_17_1'' = 1 \<and>
   \<not> pending (step (TimerExpires 0) session_pending) ''req_17_1'' \<and>
   settlements (step (TimerExpires 0) session_pending) ''req_17_1'' = 1 \<and>
   \<not> pending (step Disconnect session_pending) ''req_17_1'' \<and>
   settlements (step Disconnect session_pending) ''req_17_1'' = 1 \<and>
   destroys Disconnect session_pending ''req_17_1'' \<and>
   reachable session_orphaned \<and>
   \<not> pending session_orphaned ''req_17_1'' \<and>
   settlements session_orphaned ''req_17_1'' = 0 \<and>
   request_timer session_orphaned 0 = Some ''req_17_1'' \<and>
   settlements (step (TimerExpires 0) session_orphaned) ''req_17_1'' = 1"
proof -
  note t = single_resolution [OF reachable_session_pending, of 17]
  note u = single_resolution [OF reachable_session_orphaned, of 17]
  have p: "pending session_pending ''req_17_1''"
    by (simp add: pending_def session_pending_eq)
  have k: "ready session_pending 0 \<noteq> None"
    by (simp add: ready_def session_pending_eq)
  have f: "get_prop success_response ''type'' = Some (JStr ''response'')"
    "get_prop success_response ''request_id'' = Some (JStr ''req_17_1'')"
    "settlement ''req_17_1'' success_response \<noteq> None"
    by (simp_all add: success_response_def settlement_def)
  have h: "request_timer session_pending 0 = Some ''req_17_1''"
    by (simp add: request_timer_def session_pending_eq)
  have o: "\<not> pending session_orphaned ''req_17_1''"
    "request_timer session_orphaned 0 = Some ''req_17_1''"
    "settlements session_orphaned ''req_17_1'' = 0"
    by (simp_all add: session_orphaned_eq pending_def request_timer_def session_pending_eq
        settlements_def settled_def)
  from t p have a: "settlements session_pending ''req_17_1'' = 0" by blast
  from t have b: "\<not> pending session_pending (fst (generateRequestId 17 session_pending))" by blast
  from t p k f(1,2)
  have "\<not> pending (step (WsMessage 0 (Parsed success_response)) session_pending) ''req_17_1'' \<and>
      settlements (step (WsMessage 0 (Parsed success_response)) session_pending) ''req_17_1'' =
        (if settlement ''req_17_1'' success_response = None then 0 else 1)"
    by blast
  with f(3) have c: "\<not> pending (step (WsMessage 0 (Parsed success_response)) session_pending) ''req_17_1''"
    "settlements (step (WsMessage 0 (Parsed success_response)) session_pending) ''req_17_1'' = 1"
    by simp_all
  from t h have d: "\<not> pending (step (TimerExpires 0) session_pending) ''req_17_1'' \<and>
      settlements (step (TimerExpires 0) session_pending) ''req_17_1'' = 1"
    by blast
  from t p have e: "\<not> pending (step Disconnect session_pending) ''req_17_1'' \<and>
      settlements (step Disconnect session_pending) ''req_17_1'' = 1"
    by blast
  from t p e have g: "destroys Disconnect session_pending ''req_17_1''" by blast
  from u o(2) have i: "settlements (step (TimerExpires 0) session_orphaned) ''req_17_1'' = 1"
    by blast
  show ?thesis
    using reachable_session_pending reachable_session_orphaned p a b c d e g o i
    by (intro conjI) simp_all
qed
section \<open>Pending requests when the connection goes away\<close>

text \<open>
  C2, as stated, fails for the abnormal close: the connection is lost with code 1006 while
  a request is pending, both reconnect attempts the options allow fail, and the client
  emits \<^verbatim>\<open>'Max reconnection attempts exceeded'\<close>. The request was never rejected: it is
  still pending and its timer is still armed.
\<close>

theorem abnormal_close_counterexample:
  "maxReconnectAttempts (options session_exhausted) = Some 2 \<and>
   reconnectAttempts session_exhausted = 2 \<and>
   last (log session_exhausted) =
     Called 1 ''error'' (ErrorArgument (DaebusConnectionError ''Max reconnection attempts exceeded'')) \<and>
   pending session_exhausted ''req_17_1'' \<and>
   settlements session_exhausted ''req_17_1'' = 0 \<and>
   request_timer session_exhausted 0 = Some ''req_17_1''"
  by (simp add: session_exhausted_fields session_exhausting_fields pending_def settlements_def
      settled_def request_timer_def)

text \<open>
  C2, amended. An explicit \<^verbatim>\<open>disconnect()\<close> rejects every pending request at once with
  a \<^verbatim>\<open>DaebusConnectionError\<close>, in the order of the pending map, so that each is settled
  exactly once; the pending map is empty afterwards, the timer of every request that was
  pending is cleared, and no timer is left armed for such a request. An abnormal close
  does none of this, whether or not it exhausts the reconnect attempts: the \<^verbatim>\<open>'close'\<close>
  and \<^verbatim>\<open>'error'\<close> events of a transport handle, the expiry of a reconnect timer and the
  continuation of a failed reconnect (which is where the attempts run out) leave the
  pending map, the request timers and the settlements as they are, so the requests stay
  pending until a response, their own timeout or an explicit \<^verbatim>\<open>disconnect()\<close>.
\<close>

theorem disconnect_rejects_all_pending:
  assumes "reachable c"
  shows "pendingRequests (disconnect c) = [] \<and>
         log (disconnect c) =
           log c @ (case ws c of None \<Rightarrow> [] | Some k \<Rightarrow> [CloseCall k 1000 ''Client disconnect'']) @
             map connection_closed (pendingRequests c) \<and>
         (\<forall>rid p. map_of (pendingRequests c) rid = Some p \<longrightarrow>
            settlements (disconnect c) rid = 1 \<and>
            timers (disconnect c) (pending_request.timeout p) = None \<and>
            (\<forall>h. request_timer (disconnect c) h \<noteq> Some rid)) \<and>
         (e = WsClose k code reason \<or> e = WsError k m \<or> e = Microtask \<or>
          e = TimerExpires h \<and> reconnect_timer c h \<longrightarrow>
            pendingRequests (step e c) = pendingRequests c \<and>
            settlements (step e c) = settlements c \<and>
            request_timer (step e c) = request_timer c)"
proof -
  have inv: "correlator_inv c" using assms by (rule reachable_inv)
  note d = disconnect_effect [OF inv]
  have one: "\<forall>rid p. map_of (pendingRequests c) rid = Some p \<longrightarrow>
            settlements (disconnect c) rid = 1 \<and>
            timers (disconnect c) (pending_request.timeout p) = None \<and>
            (\<forall>h. request_timer (disconnect c) h \<noteq> Some rid)"
  proof (intro allI impI)
    fix rid p assume p: "map_of (pendingRequests c) rid = Some p"
    then have pe: "pending c rid" by (simp add: pending_def)
    have "settlements c rid = 0" using inv_pending [OF inv p] by simp
    with d pe have a: "settlements (disconnect c) rid = 1" by simp
    have "(rid, p) \<in> set (pendingRequests c)" using p by (rule map_of_SomeD)
    then have "(pending_request.timeout \<circ> snd) (rid, p) \<in>
        (pending_request.timeout \<circ> snd) ` set (pendingRequests c)"
      by (rule imageI)
    then have b: "timers (disconnect c) (pending_request.timeout p) = None"
      by (simp add: disconnect_fields)
    from d pe have "\<forall>h. request_timer (disconnect c) h \<noteq> Some rid" by blast
    with a b show "settlements (disconnect c) rid = 1 \<and>
        timers (disconnect c) (pending_request.timeout p) = None \<and>
        (\<forall>h. request_timer (disconnect c) h \<noteq> Some rid)"
      by blast
  qed
  have q: "quiet c (step e c)"
    if "e = WsClose k code reason \<or> e = WsError k m \<or> e = Microtask \<or>
        e = TimerExpires h \<and> reconnect_timer c h"
    using that
  proof (elim disjE conjE)
    assume "e = WsClose k code reason"
    then show ?thesis by (intro quiet_step [OF inv]) blast
  next
    assume "e = WsError k m"
    then show ?thesis by (intro quiet_step [OF inv]) blast
  next
    assume "e = Microtask"
    then show ?thesis by (intro quiet_step [OF inv]) blast
  next
    assume e: "e = TimerExpires h" and r: "reconnect_timer c h"
    from r have "request_timer c h = None"
      by (auto simp add: reconnect_timer_def request_timer_def split: option.splits)
    with fire_cases [of c h] have "quiet c (fire h c)" by auto
    with e show ?thesis by simp
  qed
  have a: "e = WsClose k code reason \<or> e = WsError k m \<or> e = Microtask \<or>
          e = TimerExpires h \<and> reconnect_timer c h \<longrightarrow>
            pendingRequests (step e c) = pendingRequests c \<and>
            settlements (step e c) = settlements c \<and>
            request_timer (step e c) = request_timer c"
    using q quiet_keeps by blast
  show ?thesis
    using d one a disconnect_fields(3) [of c] by blast
qed

text \<open>
  The witness takes the session with the pending request through an abnormal close: the
  \<^verbatim>\<open>'close'\<close> event with code 1006 schedules a reconnect, the reconnect timer expires and
  opens a new transport handle, and in the session whose reconnect attempts have failed
  the last continuation emits \<^verbatim>\<open>'Max reconnection attempts exceeded'\<close>; the request stays
  pending throughout, and \<^verbatim>\<open>disconnect()\<close> then rejects it and clears its timer.
\<close>

theorem disconnect_rejects_all_pending_witness:
  "reachable session_pending \<and>
   pendingRequests session_pending = [(''req_17_1'', \<lparr>pending_request.timeout = 0\<rparr>)] \<and>
   pendingRequests (step (WsClose 0 1006 ''Connection lost'') session_pending) =
     pendingRequests session_pending \<and>
   isReconnecting (step (WsClose 0 1006 ''Connection lost'') session_pending) \<and>
   reachable session_pending_lost \<and> reconnect_timer session_pending_lost 1 \<and>
   pendingRequests (step (TimerExpires 1) session_pending_lost) = pendingRequests session_pending \<and>
   ws (step (TimerExpires 1) session_pending_lost) = Some 1 \<and>
   reachable session_exhausting \<and>
   pendingRequests session_exhausting = [(''req_17_1'', \<lparr>pending_request.timeout = 0\<rparr>)] \<and>
   pendingRequests (step Microtask session_exhausting) = pendingRequests session_exhausting \<and>
   settlements (step Microtask session_exhausting) = settlements session_exhausting \<and>
   last (log (step Microtask session_exhausting)) =
     Called 1 ''error'' (ErrorArgument (DaebusConnectionError ''Max reconnection attempts exceeded'')) \<and>
   pendingRequests (disconnect session_pending_lost) = [] \<and>
   settlements (disconnect session_pending_lost) ''req_17_1'' = 1 \<and>
   timers (disconnect session_pending_lost) 0 = None \<and>
   request_timer (disconnect session_pending_lost) 0 \<noteq> Some ''req_17_1''"
proof -
  note t = disconnect_rejects_all_pending [OF reachable_session_pending,
      of "WsClose 0 1006 ''Connection lost''" 0 1006 "''Connection lost''"]
  note u = disconnect_rejects_all_pending [OF reachable_session_pending_lost,
      of "TimerExpires 1" _ _ _ _ 1]
  note v = disconnect_rejects_all_pending [OF reachable_session_exhausting, of Microtask]
  have p: "pendingRequests session_pending = [(''req_17_1'', \<lparr>pending_request.timeout = 0\<rparr>)]"
    by (simp add: session_pending_eq)
  have pl: "pendingRequests session_pending_lost = pendingRequests session_pending"
    "map_of (pendingRequests session_pending_lost) ''req_17_1'' = Some \<lparr>pending_request.timeout = 0\<rparr>"
    by (simp_all add: session_pending_lost_eq p)
  have r: "reconnect_timer session_pending_lost 1"
    by (simp add: session_pending_lost_eq reconnect_timer_def)
  from t have a: "pendingRequests (step (WsClose 0 1006 ''Connection lost'') session_pending) =
      pendingRequests session_pending"
    by blast
  have a': "isReconnecting (step (WsClose 0 1006 ''Connection lost'') session_pending)"
    using session_pending_lost_eq by (simp add: session_pending_lost_def)
  from u r have "pendingRequests (step (TimerExpires 1) session_pending_lost) =
      pendingRequests session_pending_lost"
    by blast
  then have b: "pendingRequests (step (TimerExpires 1) session_pending_lost) =
      pendingRequests session_pending"
    by (simp add: pl)
  have b': "ws (step (TimerExpires 1) session_pending_lost) = Some 1"
    by (simp add: session_pending_lost_eq session_pending_eq operation_defs example_options_def)
  from v have c: "pendingRequests (step Microtask session_exhausting) = pendingRequests session_exhausting"
    "settlements (step Microtask session_exhausting) = settlements session_exhausting"
    by blast+
  have c': "last (log (step Microtask session_exhausting)) =
      Called 1 ''error'' (ErrorArgument (DaebusConnectionError ''Max reconnection attempts exceeded''))"
    using session_exhausted_fields(5) by (simp add: session_exhausted_def)
  from u have d: "pendingRequests (disconnect session_pending_lost) = []" by blast
  from u pl(2) have e: "settlements (disconnect session_pending_lost) ''req_17_1'' = 1 \<and>
      timers (disconnect session_pending_lost) (pending_request.timeout \<lparr>pending_request.timeout = 0\<rparr>) = None \<and>
      (\<forall>h. request_timer (disconnect session_pending_lost) h \<noteq> Some ''req_17_1'')"
    by blast
  then have e': "settlements (disconnect session_pending_lost) ''req_17_1'' = 1"
    "timers (disconnect session_pending_lost) 0 = None"
    "request_timer (disconnect session_pending_lost) 0 \<noteq> Some ''req_17_1''"
    by simp_all
  show ?thesis
    using reachable_session_pending reachable_session_pending_lost reachable_session_exhausting
      p a a' r b b' session_exhausting_fields(1) c c' d e'
    by (intro conjI) simp_all
qed
section \<open>Resubscription after a reconnect\<close>

text \<open>
  C3. Take any run of the client, with whatever subscribe and unsubscribe calls it
  contains, that ends with the reconnecting flag set and the current transport handle
  connecting. When that handle opens, the client sends on it one \<^verbatim>\<open>subscribe\<close> frame for
  each channel of \<^verbatim>\<open>subscribedChannels\<close>, in insertion order, and no other frame; the
  channels are pairwise distinct, and they are exactly the desired-active set of the run:
  the channels whose subscription was accepted and that were not unsubscribed since. The
  reconnecting flag is cleared and the set itself is unchanged.
\<close>

theorem resubscribe_on_reconnect:
  assumes "c = run es (init opts)"
    and "isReconnecting c" and "ws c = Some k" and "ready c k = Some CONNECTING"
  shows "log (step (WsOpen k) c) =
           log c @ map (\<lambda>h. Called h ''connect'' NoArgument) (listeners c ''connect'') @
             map (\<lambda>ch. Sent k (SubscribeFrame ch)) (subscribedChannels c) \<and>
         distinct (subscribedChannels c) \<and>
         set (subscribedChannels c) = desired_active es (init opts) {} \<and>
         (\<forall>ch. count_list (drop (length (log c)) (log (step (WsOpen k) c))) (Sent k (SubscribeFrame ch)) =
                (if ch \<in> desired_active es (init opts) {} then 1 else 0)) \<and>
         \<not> isReconnecting (step (WsOpen k) c) \<and>
         isConnected (step (WsOpen k) c) \<and>
         subscribedChannels (step (WsOpen k) c) = subscribedChannels c"
proof -
  have r: "reachable c"
    unfolding assms(1) by (intro reachable_run reachable.start)
  then have d: "distinct (subscribedChannels c)"
    using reachable_inv by (simp add: correlator_inv_def)
  have s: "set (subscribedChannels c) = desired_active es (init opts) {}"
    unfolding assms(1) set_subs_run by (simp add: init_def)
  note o = open_while_reconnecting [OF assms(2-4)]
  have inj: "inj (\<lambda>ch. Sent k (SubscribeFrame ch))" by (simp add: inj_def)
  have cnt: "count_list (drop (length (log c)) (log (step (WsOpen k) c))) (Sent k (SubscribeFrame ch)) =
                (if ch \<in> desired_active es (init opts) {} then 1 else 0)" for ch
    using o count_list_map_inj [OF inj d, of ch]
    by (simp add: count_list_append count_list_Called s del: step.simps)
  have u: "subscribedChannels (step (WsOpen k) c) = subscribedChannels c"
    unfolding subs_step by simp
  show ?thesis using o d s cnt u by blast
qed

theorem resubscribe_on_reconnect_witness:
  "session_reconnecting = run reconnect_events (init example_options) \<and>
   isReconnecting session_reconnecting \<and>
   ws session_reconnecting = Some 1 \<and>
   ready session_reconnecting 1 = Some CONNECTING \<and>
   log (step (WsOpen 1) session_reconnecting) =
     log session_reconnecting @ [Sent 1 (SubscribeFrame ''alerts'')] \<and>
   desired_active reconnect_events (init example_options) {} = {''alerts''} \<and>
   \<not> isReconnecting (step (WsOpen 1) session_reconnecting)"
proof -
  have h1: "session_reconnecting = run reconnect_events (init example_options)"
    by (simp add: session_reconnecting_def)
  have h2: "isReconnecting session_reconnecting"
    and h3: "ws session_reconnecting = Some 1"
    and h4: "ready session_reconnecting 1 = Some CONNECTING"
    by (simp_all add: session_reconnecting_eq ready_def)
  have f: "listeners session_reconnecting ''connect'' = []"
    "subscribedChannels session_reconnecting = [''alerts'']"
    by (simp_all add: session_reconnecting_eq)
  note t = resubscribe_on_reconnect [OF h1 h2 h3 h4]
  from t have "log (step (WsOpen 1) session_reconnecting) =
      log session_reconnecting @
        map (\<lambda>h. Called h ''connect'' NoArgument) (listeners session_reconnecting ''connect'') @
        map (\<lambda>ch. Sent 1 (SubscribeFrame ch)) (subscribedChannels session_reconnecting)"
    by blast
  then have a: "log (step (WsOpen 1) session_reconnecting) =
      log session_reconnecting @ [Sent 1 (SubscribeFrame ''alerts'')]"
    unfolding f by simp
  from t have "set (subscribedChannels session_reconnecting) =
      desired_active reconnect_events (init example_options) {}"
    by blast
  then have b: "desired_active reconnect_events (init example_options) {} = {''alerts''}"
    unfolding f by simp
  from t have c: "\<not> isReconnecting (step (WsOpen 1) session_reconnecting)" by blast
  show ?thesis using h1 h2 h3 h4 a b c by blast
qed

section \<open>The order in which the router classifies a frame\<close>

text \<open>
  C4, as stated, fails in its first two clauses. A frame without a type that carries the
  id of a pending request together with a channel and data goes to the channel's
  handlers, and the request stays pending; a frame that carries a channel and no data
  reaches no channel handler.
\<close>

theorem classification_counterexample:
  "pending session_pending ''req_17_1'' \<and>
   get_prop tagged_channel_frame ''request_id'' = Some (JStr ''req_17_1'') \<and>
   handleMessage (Parsed tagged_channel_frame) session_pending =
     (None,
      session_pending\<lparr>log := log session_pending @
        [Called 3 ''channel:alerts'' (DataArgument (Some (JObj [(''level'', JStr ''high'')])))]\<rparr>) \<and>
   pending (snd (handleMessage (Parsed tagged_channel_frame) session_pending)) ''req_17_1'' \<and>
   \<not> pending (snd (handleResponse tagged_channel_frame session_pending)) ''req_17_1'' \<and>
   get_prop bare_channel_frame ''channel'' = Some (JStr ''alerts'') \<and>
   listeners session_pending ''channel:alerts'' = [3] \<and>
   log (snd (handleMessage (Parsed bare_channel_frame) session_pending)) = log session_pending"
  by (simp add: session_pending_eq tagged_channel_frame_def bare_channel_frame_def pending_def
      handleMessage_def try_block_def caught_def emit_channel_def handleResponse_def emit_def
      to_string_def pending_has_def resolve_pending_def clearTimeout_def)

text \<open>
  C4, amended. For every inbound frame other than \<^verbatim>\<open>null\<close> the router classifies in this
  order: (1) a frame of type \<^verbatim>\<open>response\<close> goes to the request correlator, which takes
  the request out of the pending map when the frame's id is pending and drops the frame
  otherwise; (2) a frame of type \<^verbatim>\<open>channel_message\<close> goes to all handlers registered for
  its channel, in registration order; (3) otherwise a frame whose channel and data are
  both truthy goes to the handlers of that channel, whether or not it carries a pending
  id; (4) otherwise a frame whose \<^verbatim>\<open>request_id\<close> is pending goes to the request
  correlator; (5) otherwise the frame is emitted as a generic \<^verbatim>\<open>'message'\<close> event. The
  handlers of a channel are those \<^verbatim>\<open>subscribeToChannel\<close> registered for it, and the
  channel of (2) and (3) is one that converts to a string; of a channel that does not,
  nothing is said here. An exception of the request correlator is caught like every
  exception of the \<^verbatim>\<open>try\<close> block.
\<close>

theorem classification_order:
  assumes "m \<noteq> JNull"
  shows
    "(get_prop m ''type'' = Some (JStr ''response'') \<longrightarrow>
        handleMessage (Parsed m) c = caught (handleResponse m c) \<and>
        \<not> pending_has (get_prop m ''request_id'') (snd (handleMessage (Parsed m) c)) \<and>
        (\<not> pending_has (get_prop m ''request_id'') c \<longrightarrow> handleMessage (Parsed m) c = (None, c))) \<and>
     (get_prop m ''type'' = Some (JStr ''channel_message'') \<and>
      to_string (get_prop m ''channel'') = Some name \<longrightarrow>
        handleMessage (Parsed m) c = (None, deliver name m c)) \<and>
     (get_prop m ''type'' \<noteq> Some (JStr ''response'') \<and> truthy (get_prop m ''channel'') \<and>
      truthy (get_prop m ''data'') \<and> to_string (get_prop m ''channel'') = Some name \<longrightarrow>
        handleMessage (Parsed m) c = (None, deliver name m c)) \<and>
     (get_prop m ''type'' \<noteq> Some (JStr ''response'') \<and>
      get_prop m ''type'' \<noteq> Some (JStr ''channel_message'') \<and>
      \<not> (truthy (get_prop m ''channel'') \<and> truthy (get_prop m ''data'')) \<longrightarrow>
        (truthy (get_prop m ''request_id'') \<and> pending_has (get_prop m ''request_id'') c \<longrightarrow>
           handleMessage (Parsed m) c = caught (handleResponse m c) \<and>
           \<not> pending_has (get_prop m ''request_id'') (snd (handleMessage (Parsed m) c))) \<and>
        (\<not> (truthy (get_prop m ''request_id'') \<and> pending_has (get_prop m ''request_id'') c) \<longrightarrow>
           handleMessage (Parsed m) c =
             (None, c\<lparr>log := log c @ map (\<lambda>h. Called h ''message'' (MessageArgument m))
                                        (listeners c ''message'')\<rparr>))) \<and>
     (isConnected c \<longrightarrow>
        listeners (snd (subscribeToChannel ch h c)) (''channel:'' @ ch) =
          listeners c (''channel:'' @ ch) @ [h])"
proof -
  have hm: "handleMessage (Parsed m) c =
      caught
       (if get_prop m ''type'' = Some (JStr ''response'') then handleResponse m c
        else if get_prop m ''type'' = Some (JStr ''channel_message'')
          then emit_channel (get_prop m ''channel'') (get_prop m ''data'') c
        else if truthy (get_prop m ''channel'') \<and> truthy (get_prop m ''data'')
          then emit_channel (get_prop m ''channel'') (get_prop m ''data'') c
        else if truthy (get_prop m ''request_id'') \<and> pending_has (get_prop m ''request_id'') c
          then handleResponse m c
        else (None, emit ''message'' (MessageArgument m) c))"
    using assms by (simp add: handleMessage_def try_block_def handleChannelMessage_def)
  have dl: "caught (emit_channel (get_prop m ''channel'') (get_prop m ''data'') c) =
      (None, deliver name m c)"
    if "to_string (get_prop m ''channel'') = Some name"
    using that by (simp add: emit_channel_def caught_def emit_def deliver_def)
  have nm: "caught (handleResponse m c) = (None, c)"
    if "\<not> pending_has (get_prop m ''request_id'') c"
  proof -
    have "handleResponse m c = (None, c)"
      using that by (intro handleResponse_nomatch) (simp add: pending_has_def)
    then show ?thesis by (simp add: caught_def)
  qed
  have gone: "\<not> pending_has (get_prop m ''request_id'') (snd (caught (handleResponse m c)))"
  proof (cases "pending_has (get_prop m ''request_id'') c")
    case False
    then show ?thesis by (simp add: nm)
  next
    case True
    then obtain rid p where m: "get_prop m ''request_id'' = Some (JStr rid)"
      and p: "map_of (pendingRequests c) rid = Some p"
      by (auto simp add: pending_has_def split: option.splits json.splits)
    have "pendingRequests (snd (caught (handleResponse m c))) =
        pendingRequests (snd (handleResponse m c))"
      using quiet_keeps [OF quiet_caught] by blast
    then show ?thesis
      using handleResponse_effect [OF m p] by (simp add: pending_has_def m delete_conv')
  qed
  have sub: "listeners (snd (subscribeToChannel ch h c)) (''channel:'' @ ch) =
          listeners c (''channel:'' @ ch) @ [h]" if "isConnected c"
    using that by (simp add: subscribeToChannel_def ws_send_def on_def split: option.splits)
  have gm: "caught (None, emit ''message'' (MessageArgument m) c) =
      (None, c\<lparr>log := log c @ map (\<lambda>h. Called h ''message'' (MessageArgument m)) (listeners c ''message'')\<rparr>)"
    by (simp add: emit_def caught_def)
  show ?thesis
    unfolding hm using dl nm gone sub gm by auto
qed

theorem classification_order_witness:
  "tagged_channel_frame \<noteq> JNull \<and>
   get_prop tagged_channel_frame ''type'' \<noteq> Some (JStr ''response'') \<and>
   truthy (get_prop tagged_channel_frame ''channel'') \<and>
   truthy (get_prop tagged_channel_frame ''data'') \<and>
   to_string (get_prop tagged_channel_frame ''channel'') = Some ''alerts'' \<and>
   handleMessage (Parsed tagged_channel_frame) session_pending =
     (None, deliver ''alerts'' tagged_channel_frame session_pending) \<and>
   isConnected session_pending \<and>
   listeners (snd (subscribeToChannel ''alerts'' 4 session_pending)) (''channel:'' @ ''alerts'') =
     listeners session_pending (''channel:'' @ ''alerts'') @ [4] \<and>
   success_response \<noteq> JNull \<and>
   get_prop success_response ''type'' = Some (JStr ''response'') \<and>
   pending_has (get_prop success_response ''request_id'') session_pending \<and>
   \<not> pending_has (get_prop success_response ''request_id'')
       (snd (handleMessage (Parsed success_response) session_pending))"
proof -
  have h0: "tagged_channel_frame \<noteq> JNull"
    and h1: "get_prop tagged_channel_frame ''type'' \<noteq> Some (JStr ''response'')"
    and h2: "truthy (get_prop tagged_channel_frame ''channel'')"
    and h3: "truthy (get_prop tagged_channel_frame ''data'')"
    and h5: "to_string (get_prop tagged_channel_frame ''channel'') = Some ''alerts''"
    by (simp_all add: tagged_channel_frame_def to_string_def)
  have h4: "isConnected session_pending"
    by (simp add: session_pending_eq isConnected_def)
  have g0: "success_response \<noteq> JNull"
    and g1: "get_prop success_response ''type'' = Some (JStr ''response'')"
    and g2: "pending_has (get_prop success_response ''request_id'') session_pending"
    by (simp_all add: success_response_def pending_has_def session_pending_eq)
  note t = classification_order [OF h0, where c = session_pending and name = "''alerts''"
      and ch = "''alerts''" and h = 4]
  note u = classification_order [OF g0, where c = session_pending]
  from t h1 h2 h3 h5 have a: "handleMessage (Parsed tagged_channel_frame) session_pending =
     (None, deliver ''alerts'' tagged_channel_frame session_pending)"
    by blast
  from t h4 have b: "listeners (snd (subscribeToChannel ''alerts'' 4 session_pending)) (''channel:'' @ ''alerts'') =
     listeners session_pending (''channel:'' @ ''alerts'') @ [4]"
    by blast
  from u g1 have c: "\<not> pending_has (get_prop success_response ''request_id'')
       (snd (handleMessage (Parsed success_response) session_pending))"
    by blast
  show ?thesis using h0 h1 h2 h3 h4 h5 a b g0 g1 g2 c by blast
qed
section \<open>Timeouts, and responses that come too late\<close>

text \<open>
  C5. Let \<^verbatim>\<open>sendAction\<close> register a request in a state a run has reached, and let the run
  go on with any events among which no frame is a response to the request. If the request's
  timer is armed at the end, it is the timer \<^verbatim>\<open>sendAction\<close> set, with the delay given or
  the default one, and the request is still pending; the expiry of the timer removes the
  entry and rejects the caller's promise with a \<^verbatim>\<open>DaebusTimeoutError\<close>, which is the one
  settlement of the request, and nothing else is logged. From then on, after any further
  events, a frame of type \<^verbatim>\<open>response\<close> carrying that id changes nothing: the state,
  with its pending map and its log, is the same after \<^verbatim>\<open>handleMessage\<close> as before; and a
  frame of any other shape that carries the id leaves the pending map as it is and settles
  no promise. The same response, had it arrived before the timer expired, would have
  taken the request out of the pending map. (When a timer expires is the environment's
  choice; the model has no clock.)
\<close>

theorem timeout_rejects_late_response_dropped:
  assumes "reachable c0"
    and "sendAction sv act pl tmo now stamp c0 = (Inr rid, c1)"
    and "\<forall>e \<in> set es. \<not> carries e rid"
    and "c = run es c1"
    and "request_timer c h = Some rid"
    and "get_prop m ''type'' = Some (JStr ''response'')"
    and "get_prop m ''request_id'' = Some (JStr rid)"
  shows "timers c h =
           Some \<lparr>callback = RequestTimeout rid act,
                 delay = (case tmo of
                            Some t \<Rightarrow> t
                          | None \<Rightarrow> (case options.timeout (options c0) of
                                       Some t \<Rightarrow> t | None \<Rightarrow> 30000))\<rparr> \<and>
         pending c rid \<and>
         pendingRequests (fire h c) = AList.delete rid (pendingRequests c) \<and>
         \<not> pending (fire h c) rid \<and>
         log (fire h c) =
           log c @ [RejectedWith rid (DaebusTimeoutError (''Action '' @ act @ '' timed out''))] \<and>
         settlements (fire h c) rid = 1 \<and>
         \<not> pending (run es' (fire h c)) rid \<and>
         handleMessage (Parsed m) (run es' (fire h c)) = (None, run es' (fire h c)) \<and>
         (get_prop m' ''request_id'' = Some (JStr rid) \<longrightarrow>
            pendingRequests (snd (handleMessage (Parsed m') (run es' (fire h c)))) =
              pendingRequests (run es' (fire h c)) \<and>
            settlements (snd (handleMessage (Parsed m') (run es' (fire h c)))) =
              settlements (run es' (fire h c))) \<and>
         (ready c k \<noteq> None \<longrightarrow> \<not> pending (step (WsMessage k (Parsed m)) c) rid)"
proof -
  let ?d = "case tmo of Some t \<Rightarrow> t
            | None \<Rightarrow> (case options.timeout (options c0) of Some t \<Rightarrow> t | None \<Rightarrow> 30000)"
  let ?T = "\<lparr>callback = RequestTimeout rid act, delay = ?d\<rparr>"
  have con: "isConnected c0"
    using assms(2) by (auto simp add: sendAction_def split: if_splits)
  then obtain k0 where k: "ws c0 = Some k0"
    by (auto simp add: isConnected_def split: option.splits)
  have c1: "c1 = snd (sendAction sv act pl tmo now stamp c0)"
    using assms(2) by simp
  have "fst (sendAction sv act pl tmo now stamp c0) = Inr rid"
    using assms(2) by simp
  then have rid: "rid = fst (generateRequestId now c0)"
    unfolding sendAction_connected [OF con k] by simp
  have r1: "reachable c1"
    using reachable.next_step [OF assms(1), of "SendAction sv act pl tmo now stamp"]
    by (simp add: c1)
  have inv1: "correlator_inv c1" using r1 by (rule reachable_inv)
  have t1: "timers c1 (nextTimer c0) = Some ?T" and p1: "pending c1 rid"
    unfolding c1 sendAction_connected [OF con k] rid
    by (simp_all add: pending_def update_conv')
  then have rt1: "request_timer c1 (nextTimer c0) = Some rid"
    by (simp add: request_timer_def)
  have iss: "issued c1 rid" using inv_armed [OF inv1 rt1] by simp
  have rc: "reachable c" unfolding assms(4) using r1 by (rule reachable_run)
  have inv: "correlator_inv c" using rc by (rule reachable_inv)
  have same: "timers c h = timers c1 h"
    unfolding assms(4) using assms(5) by (intro armed_back [OF r1 iss]) (simp add: assms(4))
  then have "request_timer c1 h = Some rid"
    using assms(5) by (simp add: request_timer_def)
  then have h: "h = nextTimer c0" using inv_unique [OF inv1 _ rt1] by simp
  have tm: "timers c h = Some ?T" using same t1 h by simp
  have a: "pending c rid"
    unfolding assms(4) using r1 p1 assms(3)
    by (rule pending_run) (use assms(4,5) in simp)
  note f = fire_request_timer [OF inv assms(5)]
  have b: "pendingRequests (fire h c) = AList.delete rid (pendingRequests c)"
    using f by simp
  have l: "log (fire h c) =
      log c @ [RejectedWith rid (DaebusTimeoutError (''Action '' @ act @ '' timed out''))]"
    using tm by (simp add: fire_def request_timeout_def)
  have n: "\<not> pending (fire h c) rid" by (simp add: pending_def b delete_conv')
  have one: "settlements (fire h c) rid = 1" using f by simp
  have rf: "reachable (fire h c)"
    using reachable.next_step [OF rc, of "TimerExpires h"] by simp
  let ?c' = "run es' (fire h c)"
  have "settlements (fire h c) rid \<le> settlements ?c' rid"
    using rf by (rule settlements_run_mono)
  with one have pos: "0 < settlements ?c' rid" by simp
  have inv': "correlator_inv ?c'" using reachable_run [OF rf] by (rule reachable_inv)
  have np: "map_of (pendingRequests ?c') rid = None"
  proof (cases "map_of (pendingRequests ?c') rid")
    case (Some q)
    with inv_pending [OF inv'] have "settlements ?c' rid = 0" by blast
    with pos show ?thesis by simp
  qed simp
  then have late: "\<not> pending ?c' rid" by (simp add: pending_def)
  have "handleResponse m ?c' = (None, ?c')"
    using assms(7) np by (intro handleResponse_nomatch) simp
  moreover have "handleMessage (Parsed m) ?c' = caught (handleResponse m ?c')"
    using assms(6) by (auto simp add: handleMessage_def try_block_def)
  ultimately have drop: "handleMessage (Parsed m) ?c' = (None, ?c')"
    by (simp add: caught_def)
  have any: "pendingRequests (snd (handleMessage (Parsed m') ?c')) = pendingRequests ?c' \<and>
      settlements (snd (handleMessage (Parsed m') ?c')) = settlements ?c'"
    if m': "get_prop m' ''request_id'' = Some (JStr rid)"
  proof -
    from handleMessage_cases [of ?c' "Parsed m'"] have "quiet ?c' (snd (handleMessage (Parsed m') ?c'))"
    proof
      assume "\<exists>m rid p. Parsed m' = Parsed m \<and> get_prop m ''request_id'' = Some (JStr rid) \<and>
        response_frame m \<and> map_of (pendingRequests ?c') rid = Some p \<and>
        quiet (snd (handleResponse m ?c')) (snd (handleMessage (Parsed m') ?c'))"
      with m' np show ?thesis by auto
    qed
    then show ?thesis by (simp add: quiet_def)
  qed
  have early: "\<not> pending (step (WsMessage k (Parsed m)) c) rid" if "ready c k \<noteq> None"
  proof -
    from a obtain q where "map_of (pendingRequests c) rid = Some q"
      by (auto simp add: pending_def)
    from response_step [OF that assms(6,7) this] show ?thesis
      by (simp add: pending_def delete_conv')
  qed
  have any': "get_prop m' ''request_id'' = Some (JStr rid) \<longrightarrow>
      pendingRequests (snd (handleMessage (Parsed m') ?c')) = pendingRequests ?c' \<and>
      settlements (snd (handleMessage (Parsed m') ?c')) = settlements ?c'"
  proof
    assume "get_prop m' ''request_id'' = Some (JStr rid)"
    then show "pendingRequests (snd (handleMessage (Parsed m') ?c')) = pendingRequests ?c' \<and>
      settlements (snd (handleMessage (Parsed m') ?c')) = settlements ?c'"
      by (rule any)
  qed
  have early': "ready c k \<noteq> None \<longrightarrow> \<not> pending (step (WsMessage k (Parsed m)) c) rid"
  proof
    assume "ready c k \<noteq> None"
    then show "\<not> pending (step (WsMessage k (Parsed m)) c) rid" by (rule early)
  qed
  show ?thesis
    by (intro conjI tm a b n l one late drop any' early')
qed

theorem timeout_rejects_late_response_dropped_witness:
  "reachable session_subscribed \<and>
   sendAction ''test-service'' ''ping'' (JObj []) (Some 500) 17 18 session_subscribed =
     (Inr ''req_17_1'', session_pending) \<and>
   \<not> carries (Broadcast ''alerts'' JNull) ''req_17_1'' \<and>
   \<not> carries (WsMessage 0 (Parsed tagged_channel_frame)) ''req_17_1'' \<and>
   request_timer
     (run [Broadcast ''alerts'' JNull, WsMessage 0 (Parsed tagged_channel_frame)] session_pending) 0 =
     Some ''req_17_1'' \<and>
   get_prop success_response ''type'' = Some (JStr ''response'') \<and>
   get_prop success_response ''request_id'' = Some (JStr ''req_17_1'') \<and>
   timers
     (run [Broadcast ''alerts'' JNull, WsMessage 0 (Parsed tagged_channel_frame)] session_pending) 0 =
     Some \<lparr>callback = RequestTimeout ''req_17_1'' ''ping'', delay = 500\<rparr> \<and>
   pending
     (run [Broadcast ''alerts'' JNull, WsMessage 0 (Parsed tagged_channel_frame)] session_pending)
     ''req_17_1'' \<and>
   \<not> pending
     (fire 0 (run [Broadcast ''alerts'' JNull, WsMessage 0 (Parsed tagged_channel_frame)] session_pending))
     ''req_17_1'' \<and>
   settlements
     (fire 0 (run [Broadcast ''alerts'' JNull, WsMessage 0 (Parsed tagged_channel_frame)] session_pending))
     ''req_17_1'' = 1 \<and>
   handleMessage (Parsed success_response)
     (run [Connect]
        (fire 0 (run [Broadcast ''alerts'' JNull, WsMessage 0 (Parsed tagged_channel_frame)]
           session_pending))) =
     (None,
      run [Connect]
        (fire 0 (run [Broadcast ''alerts'' JNull, WsMessage 0 (Parsed tagged_channel_frame)]
           session_pending))) \<and>
   ready (run [Broadcast ''alerts'' JNull, WsMessage 0 (Parsed tagged_channel_frame)] session_pending) 0
     \<noteq> None \<and>
   \<not> pending
     (step (WsMessage 0 (Parsed success_response))
        (run [Broadcast ''alerts'' JNull, WsMessage 0 (Parsed tagged_channel_frame)] session_pending))
     ''req_17_1''"
proof -
  let ?es = "[Broadcast ''alerts'' JNull, WsMessage 0 (Parsed tagged_channel_frame)]"
  have h3: "\<forall>e \<in> set ?es. \<not> carries e ''req_17_1''"
    by (simp add: tagged_channel_frame_def response_frame_def)
  have h5: "request_timer (run ?es session_pending) 0 = Some ''req_17_1''"
    by (simp add: session_pending_eq request_timer_def tagged_channel_frame_def operation_defs)
  have h6: "get_prop success_response ''type'' = Some (JStr ''response'')"
    and h7: "get_prop success_response ''request_id'' = Some (JStr ''req_17_1'')"
    by (simp_all add: success_response_def)
  have h8: "ready (run ?es session_pending) 0 \<noteq> None"
    by (simp add: session_pending_eq ready_def tagged_channel_frame_def operation_defs)
  note t = timeout_rejects_late_response_dropped
    [OF reachable_session_subscribed session_pending_sent h3 refl h5 h6 h7,
     where es' = "[Connect]" and k = 0]
  from t have a: "timers (run ?es session_pending) 0 =
      Some \<lparr>callback = RequestTimeout ''req_17_1'' ''ping'', delay = 500\<rparr>"
    by simp
  from t have b: "pending (run ?es session_pending) ''req_17_1''"
    "\<not> pending (fire 0 (run ?es session_pending)) ''req_17_1''"
    "settlements (fire 0 (run ?es session_pending)) ''req_17_1'' = 1"
    "handleMessage (Parsed success_response) (run [Connect] (fire 0 (run ?es session_pending))) =
      (None, run [Connect] (fire 0 (run ?es session_pending)))"
    by blast+
  have h3': "\<not> carries (Broadcast ''alerts'' JNull) ''req_17_1''"
    "\<not> carries (WsMessage 0 (Parsed tagged_channel_frame)) ''req_17_1''"
    using h3 by simp_all
  from t h8 have c: "\<not> pending (step (WsMessage 0 (Parsed success_response)) (run ?es session_pending))
      ''req_17_1''"
    by blast
  show ?thesis
    using reachable_session_subscribed session_pending_sent h3' h5 h6 h7 a b h8 c
    by (intro conjI)
qed
section \<open>A matching response settles the request\<close>

text \<open>
  C6. \<^verbatim>\<open>handleResponse\<close> sets out to do what the claim says: it removes the entry and
  then resolves the promise with the frame's \<^verbatim>\<open>data\<close>, or, when the frame's \<^verbatim>\<open>success\<close>
  is \<^verbatim>\<open>false\<close>, rejects it with a \<^verbatim>\<open>DaebusError\<close> made of the frame's error. But it
  removes the entry first, and making the error converts the frame's \<^verbatim>\<open>error\<close> to a
  string, which raises for an object with a \<^verbatim>\<open>toString\<close> property of its own. On the
  frame \<^verbatim>\<open>{"type":"response","request_id":"req_17_1","success":false,"error":{"toString":1}}\<close>,
  whose id is pending, the entry is removed and the promise is not rejected: the
  exception is reported as a parse failure, no settlement is logged, and the request's
  timer stays armed, so that what the caller gets in the end is the
  \<^verbatim>\<open>DaebusTimeoutError\<close> of the timer. The same frame with a text for its error rejects
  the promise with that text and clears the timer.
\<close>

theorem unconvertible_error_not_rejected:
  "pending session_pending ''req_17_1'' \<and>
   request_timer session_pending 0 = Some ''req_17_1'' \<and>
   get_prop unconvertible_response ''request_id'' = Some (JStr ''req_17_1'') \<and>
   get_prop unconvertible_response ''success'' = Some (JBool False) \<and>
   get_prop unconvertible_response ''error'' = Some (JObj [(''toString'', JNum ''1'')]) \<and>
   handleResponse unconvertible_response session_pending =
     (Some (TypeError ''Cannot convert object to primitive value''),
      session_pending\<lparr>pendingRequests := []\<rparr>) \<and>
   handleMessage (Parsed unconvertible_response) session_pending =
     (None,
      session_pending\<lparr>pendingRequests := [],
        log := log session_pending @
          [Called 1 ''error''
             (ErrorArgument (DaebusError
                ''Failed to parse message: TypeError: Cannot convert object to primitive value''))]\<rparr>) \<and>
   session_orphaned = snd (handleMessage (Parsed unconvertible_response) session_pending) \<and>
   \<not> pending session_orphaned ''req_17_1'' \<and>
   settlements session_orphaned ''req_17_1'' = 0 \<and>
   request_timer session_orphaned 0 = Some ''req_17_1'' \<and>
   log (fire 0 session_orphaned) =
     log session_orphaned @
       [RejectedWith ''req_17_1'' (DaebusTimeoutError ''Action ping timed out'')] \<and>
   handleMessage (Parsed error_response) session_pending =
     (None,
      session_pending\<lparr>pendingRequests := [], timers := Map.empty,
        log := log session_pending @
          [RejectedWith ''req_17_1'' (DaebusError ''Action failed'')]\<rparr>)"
proof -
  have a: "pending session_pending ''req_17_1''"
    "request_timer session_pending 0 = Some ''req_17_1''"
    by (simp_all add: session_pending_eq pending_def request_timer_def)
  have b: "get_prop unconvertible_response ''request_id'' = Some (JStr ''req_17_1'')"
    "get_prop unconvertible_response ''success'' = Some (JBool False)"
    "get_prop unconvertible_response ''error'' = Some (JObj [(''toString'', JNum ''1'')])"
    by (simp_all add: unconvertible_response_def)
  have c: "handleResponse unconvertible_response session_pending =
     (Some (TypeError ''Cannot convert object to primitive value''),
      session_pending\<lparr>pendingRequests := []\<rparr>)"
    by (simp add: unconvertible_response_def session_pending_eq handleResponse_def error_text_def
        to_string_def conversion_error_def)
  have d: "handleMessage (Parsed unconvertible_response) session_pending =
     (None,
      session_pending\<lparr>pendingRequests := [],
        log := log session_pending @
          [Called 1 ''error''
             (ErrorArgument (DaebusError
                ''Failed to parse message: TypeError: Cannot convert object to primitive value''))]\<rparr>)"
    by (simp add: unconvertible_response_def session_pending_eq operation_defs
        conversion_error_def error_string_def)
  have e: "session_orphaned = snd (handleMessage (Parsed unconvertible_response) session_pending)"
    by (simp add: session_orphaned_def ready_def session_pending_eq)
  have f: "\<not> pending session_orphaned ''req_17_1''"
    "settlements session_orphaned ''req_17_1'' = 0"
    "request_timer session_orphaned 0 = Some ''req_17_1''"
    "log (fire 0 session_orphaned) =
     log session_orphaned @
       [RejectedWith ''req_17_1'' (DaebusTimeoutError ''Action ping timed out'')]"
    by (simp_all add: session_orphaned_eq session_pending_eq pending_def settlements_def
        settled_def request_timer_def fire_def request_timeout_def)
  have g: "handleMessage (Parsed error_response) session_pending =
     (None,
      session_pending\<lparr>pendingRequests := [], timers := Map.empty,
        log := log session_pending @
          [RejectedWith ''req_17_1'' (DaebusError ''Action failed'')]\<rparr>)"
    by (simp add: error_response_def session_pending_eq operation_defs)
  show ?thesis
    using a b c d e f g by (intro conjI)
qed
section \<open>Calling connect again\<close>

text \<open>
  C7, as stated, fails: while the first attempt is in flight and its promise is
  unsettled, a second \<^verbatim>\<open>connect()\<close> returns a promise that is fulfilled already; the
  attempt in flight then fails and its promise is rejected.
\<close>

theorem connect_while_connecting_counterexample:
  "isConnecting session_connecting \<and>
   map_option connectPromise (sockets session_connecting 0) = Some Unsettled \<and>
   fst (connect Application session_connecting) = ResolvedNow \<and>
   fst (connect Application session_connecting) \<noteq> Awaiting 0 \<and>
   map_option connectPromise
     (sockets (step (WsError 0 ''ECONNREFUSED'') (snd (connect Application session_connecting))) 0) =
     Some (Rejected (DaebusConnectionError ''WebSocket connection failed: ECONNREFUSED''))"
  by (simp add: session_connecting_eq operation_defs)

text \<open>
  C7, amended. \<^verbatim>\<open>connect()\<close> while \<^verbatim>\<open>isConnecting\<close> is set or the transport handle is
  open changes nothing (so no second handle is created) and returns a promise that is
  fulfilled at once, whatever becomes of the attempt in flight. In every other state it
  returns a promise of its own: rejected at once when the constructor refuses the URL,
  and otherwise settled by the events of the new handle it creates.
\<close>

theorem connect_while_connecting_or_open:
  "(isConnecting c \<or> isConnected c \<longrightarrow> connect who c = (ResolvedNow, c)) \<and>
   (fst (connect who c) = ResolvedNow \<longleftrightarrow> isConnecting c \<or> isConnected c) \<and>
   (fst (connect who c) = Awaiting k \<longrightarrow>
      k = nextSocket c \<and> ws (snd (connect who c)) = Some k \<and>
      sockets (snd (connect who c)) k =
        Some \<lparr>readyState = CONNECTING, connectPromise = Unsettled, awaitedBy = who\<rparr>)"
  by (auto simp add: connect_def split: option.splits)

theorem connect_while_connecting_or_open_witness:
  "isConnecting session_connecting \<and>
   connect Application session_connecting = (ResolvedNow, session_connecting) \<and>
   nextSocket (snd (connect Application session_connecting)) = 1"
proof -
  have h: "isConnecting session_connecting" by (simp add: session_connecting_eq)
  from connect_while_connecting_or_open [of session_connecting Application] h
  have "connect Application session_connecting = (ResolvedNow, session_connecting)" by blast
  moreover have "nextSocket session_connecting = 1" by (simp add: session_connecting_eq)
  ultimately show ?thesis using h by simp
qed

section \<open>Disconnecting and the reconnect timer\<close>

text \<open>
  C8, as stated, fails: after the connection was lost and a reconnect was scheduled,
  \<^verbatim>\<open>disconnect()\<close> leaves the reconnect timer armed and the reconnecting flag set, and
  when the timer expires the client opens a new transport handle by itself.
\<close>

theorem disconnect_counterexample:
  "reconnect_timer session_lost 0 \<and>
   reconnect_timer (disconnect session_lost) 0 \<and>
   isReconnecting (disconnect session_lost) \<and>
   ws (disconnect session_lost) = None \<and>
   ws (step (TimerExpires 0) (disconnect session_lost)) = Some 1 \<and>
   ready (step (TimerExpires 0) (disconnect session_lost)) 1 = Some CONNECTING"
  by (simp add: session_lost_def operation_defs example_options_def reconnect_timer_def)

text \<open>
  C8, amended. \<^verbatim>\<open>disconnect()\<close> is idempotent. From every state a run reaches it drops
  the transport handle, so that \<^verbatim>\<open>isConnected()\<close> is false, after closing it with code
  1000 when there was one, and it rejects the pending requests. It leaves the connecting
  and reconnecting flags as they are and cancels no reconnect timer: a reconnect timer
  that was armed before stays armed, and when it expires with the reconnecting flag set
  (and no attempt in flight) the client opens a new transport handle without a manual
  \<^verbatim>\<open>connect()\<close>.
\<close>

theorem disconnect_is_idempotent:
  assumes "reachable c"
  shows "disconnect (disconnect c) = disconnect c \<and>
         ws (disconnect c) = None \<and>
         \<not> isConnected (disconnect c) \<and>
         log (disconnect c) =
           log c @ (case ws c of None \<Rightarrow> [] | Some k \<Rightarrow> [CloseCall k 1000 ''Client disconnect'']) @
             map connection_closed (pendingRequests c) \<and>
         isConnecting (disconnect c) = isConnecting c \<and>
         isReconnecting (disconnect c) = isReconnecting c \<and>
         (\<forall>h. reconnect_timer (disconnect c) h = reconnect_timer c h) \<and>
         (\<forall>h. reconnect_timer c h \<and> isReconnecting c \<and> \<not> isConnecting c \<and>
               url_error (options c) = None \<longrightarrow>
               ws (fire h (disconnect c)) = Some (nextSocket c) \<and>
               ready (fire h (disconnect c)) (nextSocket c) = Some CONNECTING)"
proof -
  have inv: "correlator_inv c" using assms by (rule reachable_inv)
  have k: "\<forall>h. reconnect_timer (disconnect c) h = reconnect_timer c h"
    using disconnect_keeps_reconnect_timer [OF inv] by blast
  have f: "\<forall>h. reconnect_timer c h \<and> isReconnecting c \<and> \<not> isConnecting c \<and>
               url_error (options c) = None \<longrightarrow>
               ws (fire h (disconnect c)) = Some (nextSocket c) \<and>
               ready (fire h (disconnect c)) (nextSocket c) = Some CONNECTING"
    using reconnect_fires_after_disconnect [of c] k by blast
  have n: "\<not> isConnected (disconnect c)"
    by (simp add: isConnected_def disconnect_fields)
  show ?thesis
    using k f n disconnect_idem [of c] disconnect_fields(1,3,5,6) [of c] by blast
qed

theorem disconnect_is_idempotent_witness:
  "reachable session_lost \<and>
   reconnect_timer session_lost 0 \<and> isReconnecting session_lost \<and> \<not> isConnecting session_lost \<and>
   url_error (options session_lost) = None \<and>
   disconnect (disconnect session_lost) = disconnect session_lost \<and>
   log (disconnect session_lost) = log session_lost @ [CloseCall 0 1000 ''Client disconnect''] \<and>
   reconnect_timer (disconnect session_lost) 0 \<and>
   ws (fire 0 (disconnect session_lost)) = Some 1"
proof -
  have h: "reconnect_timer session_lost 0" "isReconnecting session_lost"
    "\<not> isConnecting session_lost" "url_error (options session_lost) = None"
    by (simp_all add: session_lost_eq reconnect_timer_def example_options_def)
  have v: "ws session_lost = Some 0" "pendingRequests session_lost = []" "nextSocket session_lost = 1"
    by (simp_all add: session_lost_eq)
  note t = disconnect_is_idempotent [OF reachable_session_lost]
  from t have a: "disconnect (disconnect session_lost) = disconnect session_lost" by blast
  from t have "log (disconnect session_lost) =
      log session_lost @
        (case ws session_lost of None \<Rightarrow> [] | Some k \<Rightarrow> [CloseCall k 1000 ''Client disconnect'']) @
        map connection_closed (pendingRequests session_lost)"
    by blast
  then have b: "log (disconnect session_lost) = log session_lost @ [CloseCall 0 1000 ''Client disconnect'']"
    unfolding v by simp
  from t h have c: "reconnect_timer (disconnect session_lost) 0" by blast
  from t h have "ws (fire 0 (disconnect session_lost)) = Some (nextSocket session_lost)" by blast
  then have d: "ws (fire 0 (disconnect session_lost)) = Some 1" unfolding v .
  show ?thesis using reachable_session_lost h a b c d by blast
qed

section \<open>Messages that cannot be parsed\<close>

lemma reached_all: "\<not> list_ex r hs \<Longrightarrow> reached r hs = hs"
  by (induction hs) simp_all

text \<open>
  C9, as stated, fails: on a connected client without an \<^verbatim>\<open>'error'\<close> listener, the event
  emitter raises the reported error, and it leaves \<^verbatim>\<open>handleMessage\<close> as an exception.
  The same happens on a client behind the repository's facade when the application has
  registered no \<^verbatim>\<open>'error'\<close> listener on the facade: the client has an \<^verbatim>\<open>'error'\<close>
  listener, the facade's proxy, and the proxy raises the error.
\<close>

theorem unparsable_message_counterexample:
  "listeners session_bare ''error'' = [] \<and>
   handleMessage (Unparsable (SyntaxError ''Unexpected token i in JSON at position 0'')) session_bare =
     (Some (DaebusError
        ''Failed to parse message: SyntaxError: Unexpected token i in JSON at position 0''),
      session_bare) \<and>
   listeners session_proxied ''error'' = [12] \<and>
   raises session_proxied 12 \<and>
   fst (handleMessage (Unparsable (SyntaxError ''Unexpected token i in JSON at position 0''))
          session_proxied) =
     Some (DaebusError
        ''Failed to parse message: SyntaxError: Unexpected token i in JSON at position 0'')"
  by (simp add: session_bare_eq session_proxied_eq handleMessage_def parse_failure_def
      emit_error_def error_string_def)

text \<open>
  C9, amended. For an inbound message that cannot be parsed (and for the message
  \<^verbatim>\<open>null\<close>, which the \<^verbatim>\<open>try\<close> block cannot read), the failure is reported as one
  \<^verbatim>\<open>'error'\<close> emission carrying a \<^verbatim>\<open>DaebusError\<close>, and nothing else happens: the transport
  handle, the connection flags, the pending map, the timers and the subscription set are
  as before, and no promise is settled. \<^verbatim>\<open>handleMessage\<close> returns normally exactly when
  at least one \<^verbatim>\<open>'error'\<close> listener is registered and none of the registered ones raises;
  all of them have been called then, in registration order. With no \<^verbatim>\<open>'error'\<close> listener
  the emitter raises the reported error out of \<^verbatim>\<open>handleMessage\<close>, and a listener that
  raises ends the emission with the listeners up to it called.
\<close>

theorem unparsable_message_is_reported:
  assumes "parse_error d = Some x"
  shows "(listeners c ''error'' = [] \<longrightarrow>
            handleMessage d c =
              (Some (DaebusError (''Failed to parse message: '' @ error_string x)), c)) \<and>
         (fst (handleMessage d c) = None \<longleftrightarrow>
            listeners c ''error'' \<noteq> [] \<and> (\<forall>h \<in> set (listeners c ''error''). \<not> raises c h)) \<and>
         (fst (handleMessage d c) = None \<longrightarrow>
            log (snd (handleMessage d c)) =
              log c @
                map (\<lambda>h. Called h ''error''
                       (ErrorArgument (DaebusError (''Failed to parse message: '' @ error_string x))))
                  (listeners c ''error'')) \<and>
         log (snd (handleMessage d c)) =
           log c @
             map (\<lambda>h. Called h ''error''
                    (ErrorArgument (DaebusError (''Failed to parse message: '' @ error_string x))))
               (if listeners c ''error'' = [] then []
                else reached (raises c) (listeners c ''error'')) \<and>
         ws (snd (handleMessage d c)) = ws c \<and>
         sockets (snd (handleMessage d c)) = sockets c \<and>
         isConnecting (snd (handleMessage d c)) = isConnecting c \<and>
         isReconnecting (snd (handleMessage d c)) = isReconnecting c \<and>
         reconnectAttempts (snd (handleMessage d c)) = reconnectAttempts c \<and>
         pendingRequests (snd (handleMessage d c)) = pendingRequests c \<and>
         timers (snd (handleMessage d c)) = timers c \<and>
         subscribedChannels (snd (handleMessage d c)) = subscribedChannels c \<and>
         settlements (snd (handleMessage d c)) = settlements c"
proof -
  let ?e = "DaebusError (''Failed to parse message: '' @ error_string x)"
  have "d = Unparsable x \<or>
        d = Parsed JNull \<and> x = TypeError ''Cannot read properties of null (reading 'type')''"
    using assms by (cases d rule: parse_error.cases) simp_all
  then have hm: "handleMessage d c = emit_error ?e c"
    by (auto simp add: handleMessage_def try_block_def caught_def parse_failure_def)
  have all: "reached (raises c) (listeners c ''error'') = listeners c ''error''"
    if "\<not> list_ex (raises c) (listeners c ''error'')"
    using that by (rule reached_all)
  show ?thesis
    unfolding hm
    using all
    by (auto simp add: emit_error_def settlements_def settled_append settled_Called fun_eq_iff
        list_ex_iff)
qed

theorem unparsable_message_is_reported_witness:
  "parse_error (Unparsable (SyntaxError ''Unexpected token i in JSON at position 0'')) =
     Some (SyntaxError ''Unexpected token i in JSON at position 0'') \<and>
   listeners session_open ''error'' = [1] \<and>
   \<not> raises session_open 1 \<and>
   handleMessage (Unparsable (SyntaxError ''Unexpected token i in JSON at position 0'')) session_open =
     (None,
      session_open\<lparr>log := log session_open @
        [Called 1 ''error''
           (ErrorArgument (DaebusError
              (''Failed to parse message: '' @
               error_string (SyntaxError ''Unexpected token i in JSON at position 0''))))]\<rparr>) \<and>
   pendingRequests
     (snd (handleMessage (Unparsable (SyntaxError ''Unexpected token i in JSON at position 0''))
        session_open)) = pendingRequests session_open \<and>
   fst (handleMessage (Unparsable (SyntaxError ''Unexpected token i in JSON at position 0''))
          session_proxied) \<noteq> None \<and>
   pendingRequests
     (snd (handleMessage (Unparsable (SyntaxError ''Unexpected token i in JSON at position 0''))
        session_proxied)) = pendingRequests session_proxied"
proof -
  let ?d = "Unparsable (SyntaxError ''Unexpected token i in JSON at position 0'')"
  let ?e = "DaebusError (''Failed to parse message: '' @
               error_string (SyntaxError ''Unexpected token i in JSON at position 0''))"
  have l: "listeners session_open ''error'' = [1]" and r: "\<not> raises session_open 1"
    by (simp_all add: session_open_eq)
  have lp: "listeners session_proxied ''error'' = [12]" and rp: "raises session_proxied 12"
    by (simp_all add: session_proxied_eq)
  have h: "parse_error ?d = Some (SyntaxError ''Unexpected token i in JSON at position 0'')"
    by simp
  note t = unparsable_message_is_reported [OF h, of session_open]
  note u = unparsable_message_is_reported [OF h, of session_proxied]
  from t l r have n: "fst (handleMessage ?d session_open) = None" by simp
  with t have "log (snd (handleMessage ?d session_open)) =
      log session_open @ map (\<lambda>h. Called h ''error'' (ErrorArgument ?e)) (listeners session_open ''error'')"
    by blast
  then have lg: "log (snd (handleMessage ?d session_open)) =
      log session_open @ [Called 1 ''error'' (ErrorArgument ?e)]"
    unfolding l by simp
  have "snd (handleMessage ?d session_open) =
      session_open\<lparr>log := log (snd (handleMessage ?d session_open))\<rparr>"
    by (simp add: handleMessage_def parse_failure_def emit_error_def)
  then have "snd (handleMessage ?d session_open) =
      session_open\<lparr>log := log session_open @ [Called 1 ''error'' (ErrorArgument ?e)]\<rparr>"
    unfolding lg .
  with n have a: "handleMessage ?d session_open =
      (None, session_open\<lparr>log := log session_open @ [Called 1 ''error'' (ErrorArgument ?e)]\<rparr>)"
    by (simp add: prod_eq_iff)
  have b: "pendingRequests (snd (handleMessage ?d session_open)) = pendingRequests session_open"
    using t by blast
  from u lp rp have c: "fst (handleMessage ?d session_proxied) \<noteq> None" by simp
  have e: "pendingRequests (snd (handleMessage ?d session_proxied)) = pendingRequests session_proxied"
    using u by blast
  show ?thesis using h l r a b c e by (intro conjI)
qed
section \<open>Disconnecting keeps the desired-active set\<close>

text \<open>
  C10. \<^verbatim>\<open>disconnect()\<close> leaves the desired-active set as it was, and the only step of
  a run that takes a channel out of the set is \<^verbatim>\<open>unsubscribeFromChannel\<close> of that channel.
\<close>

theorem disconnect_keeps_desired_active:
  "subscribedChannels (disconnect c) = subscribedChannels c \<and>
   (channel \<in> set (subscribedChannels c) \<and> channel \<notin> set (subscribedChannels (step e c))
      \<longrightarrow> e = UnsubscribeFromChannel channel)"
proof -
  have "e = UnsubscribeFromChannel channel"
    if "channel \<in> set (subscribedChannels c)" "channel \<notin> set (subscribedChannels (step e c))"
    using that unfolding subs_step
    by (cases e) (auto simp add: set_add_def split: if_splits)
  then show ?thesis by (simp add: subs_disconnect)
qed

theorem disconnect_keeps_desired_active_witness:
  "''alerts'' \<in> set (subscribedChannels session_pending) \<and>
   ''alerts'' \<notin> set (subscribedChannels (step (UnsubscribeFromChannel ''alerts'') session_pending)) \<and>
   subscribedChannels (disconnect session_pending) = [''alerts'']"
proof -
  have subs: "subscribedChannels session_pending = [''alerts'']"
    by (simp add: session_pending_eq)
  have a: "''alerts'' \<in> set (subscribedChannels session_pending)"
    by (simp add: subs)
  have b: "''alerts'' \<notin> set (subscribedChannels (step (UnsubscribeFromChannel ''alerts'') session_pending))"
    unfolding subs_step by (simp add: subs)
  have "subscribedChannels (disconnect session_pending) = subscribedChannels session_pending"
    using disconnect_keeps_desired_active [of session_pending "''alerts''" "UnsubscribeFromChannel ''alerts''"]
    by blast
  with a b show ?thesis by (simp add: subs)
qed

end
